theory Spec2Isabelle
  imports Main "HOL-Library.Word" "HOL-Library.Multiset"
begin

unbundle bit_operations_syntax

section \<open>Errors\<close>

text \<open>
  The Python exceptions that the seed producers of
  \<^verbatim>\<open>columnflow/production/cms/seeds.py\<close> can raise. Every raise of the source is a
  branch of the model that returns \<open>Inl\<close> of one of them.
\<close>

datatype error = ValueError | IndexError | AttributeError | FieldNotFoundError | OverflowError

definition bind :: "error + 'a \<Rightarrow> ('a \<Rightarrow> error + 'b) \<Rightarrow> error + 'b" where
  "bind m f = (case m of Inl e \<Rightarrow> Inl e | Inr x \<Rightarrow> f x)"

fun mapM :: "('a \<Rightarrow> error + 'b) \<Rightarrow> 'a list \<Rightarrow> error + 'b list" where
  "mapM f [] = Inr []"
| "mapM f (x # xs) =
     (case f x of Inl e \<Rightarrow> Inl e
      | Inr y \<Rightarrow> (case mapM f xs of Inl e \<Rightarrow> Inl e | Inr ys \<Rightarrow> Inr (y # ys)))"

section \<open>hashlib.sha256\<close>

text \<open>
  \<^verbatim>\<open>hashlib.sha256(data).hexdigest()\<close> is library code. It is modelled by the SHA-256
  function of FIPS 180-4 on byte lists: 32-bit words, big-endian packing, the padding
  rule, the message schedule and the 64 rounds of the compression function. The round
  constants and the initial hash value of the standard are written in decimal.
\<close>

type_synonym u32 = "32 word"
type_synonym byte = "8 word"

definition rotr :: "nat \<Rightarrow> u32 \<Rightarrow> u32" where
  "rotr n x = word_rotr n x"

definition Ch :: "u32 \<Rightarrow> u32 \<Rightarrow> u32 \<Rightarrow> u32" where
  "Ch x y z = (x AND y) XOR (NOT x AND z)"

definition Maj :: "u32 \<Rightarrow> u32 \<Rightarrow> u32 \<Rightarrow> u32" where
  "Maj x y z = (x AND y) XOR (x AND z) XOR (y AND z)"

definition bsig0 :: "u32 \<Rightarrow> u32" where
  "bsig0 x = rotr 2 x XOR rotr 13 x XOR rotr 22 x"

definition bsig1 :: "u32 \<Rightarrow> u32" where
  "bsig1 x = rotr 6 x XOR rotr 11 x XOR rotr 25 x"

definition ssig0 :: "u32 \<Rightarrow> u32" where
  "ssig0 x = rotr 7 x XOR rotr 18 x XOR drop_bit 3 x"

definition ssig1 :: "u32 \<Rightarrow> u32" where
  "ssig1 x = rotr 17 x XOR rotr 19 x XOR drop_bit 10 x"

definition K256 :: "u32 list" where
  "K256 =
     [
      1116352408, 1899447441, 3049323471, 3921009573, 961987163, 1508970993,
      2453635748, 2870763221, 3624381080, 310598401, 607225278, 1426881987,
      1925078388, 2162078206, 2614888103, 3248222580, 3835390401, 4022224774,
      264347078, 604807628, 770255983, 1249150122, 1555081692, 1996064986,
      2554220882, 2821834349, 2952996808, 3210313671, 3336571891, 3584528711,
      113926993, 338241895, 666307205, 773529912, 1294757372, 1396182291,
      1695183700, 1986661051, 2177026350, 2456956037, 2730485921, 2820302411,
      3259730800, 3345764771, 3516065817, 3600352804, 4094571909, 275423344,
      430227734, 506948616, 659060556, 883997877, 958139571, 1322822218,
      1537002063, 1747873779, 1955562222, 2024104815, 2227730452, 2361852424,
      2428436474, 2756734187, 3204031479, 3329325298]"

definition H256 :: "u32 list" where
  "H256 =
     [
      1779033703, 3144134277, 1013904242, 2773480762,
      1359893119, 2600822924, 528734635, 1541459225]"

fun be_words :: "byte list \<Rightarrow> u32 list" where
  "be_words (a # b # c # d # r) =
     (push_bit 24 (ucast a) OR push_bit 16 (ucast b) OR push_bit 8 (ucast c) OR ucast d)
       # be_words r"
| "be_words _ = []"

definition be_bytes64 :: "64 word \<Rightarrow> byte list" where
  "be_bytes64 w = map (\<lambda>i. ucast (drop_bit (8 * i) w)) [7, 6, 5, 4, 3, 2, 1, 0]"

definition pad :: "byte list \<Rightarrow> byte list" where
  "pad m = m @ [0x80] @ replicate ((55 + 64 - length m mod 64) mod 64) 0
             @ be_bytes64 (of_nat (8 * length m))"

fun chunks :: "nat \<Rightarrow> u32 list \<Rightarrow> u32 list list" where
  "chunks 0 xs = []"
| "chunks (Suc n) xs = take 16 xs # chunks n (drop 16 xs)"

fun schedule :: "nat \<Rightarrow> u32 list \<Rightarrow> u32 list" where
  "schedule 0 w = w"
| "schedule (Suc n) w =
     schedule n (w @ [ssig1 (w ! (length w - 2)) + w ! (length w - 7)
                      + ssig0 (w ! (length w - 15)) + w ! (length w - 16)])"

type_synonym sha_state = "u32 \<times> u32 \<times> u32 \<times> u32 \<times> u32 \<times> u32 \<times> u32 \<times> u32"

fun rnd :: "u32 \<times> u32 \<Rightarrow> sha_state \<Rightarrow> sha_state" where
  "rnd (k, w) (a, b, c, d, e, f, g, h) =
     (let t1 = h + bsig1 e + Ch e f g + k + w;
          t2 = bsig0 a + Maj a b c
      in (t1 + t2, a, b, c, d + t1, e, f, g))"

fun compress :: "u32 list \<Rightarrow> u32 list \<Rightarrow> u32 list" where
  "compress [h0, h1, h2, h3, h4, h5, h6, h7] blk =
     (case fold rnd (zip K256 (schedule 48 blk)) (h0, h1, h2, h3, h4, h5, h6, h7) of
        (a, b, c, d, e, f, g, h) \<Rightarrow>
          [h0 + a, h1 + b, h2 + c, h3 + d, h4 + e, h5 + f, h6 + g, h7 + h])"
| "compress hs blk = hs"

definition word_bytes :: "u32 \<Rightarrow> byte list" where
  "word_bytes w = [ucast (drop_bit 24 w), ucast (drop_bit 16 w), ucast (drop_bit 8 w), ucast w]"

definition sha256 :: "byte list \<Rightarrow> byte list" where
  "sha256 m =
     (let ws = be_words (pad m)
      in concat (map word_bytes
           (fold (\<lambda>blk hs. compress hs blk) (chunks (length ws div 16) ws) H256)))"

definition hexchar :: "nat \<Rightarrow> char" where
  "hexchar n = ''0123456789abcdef'' ! n"

definition hexdigest :: "byte list \<Rightarrow> string" where
  "hexdigest bs = concat (map (\<lambda>b. [hexchar (unat b div 16), hexchar (unat b mod 16)]) bs)"

section \<open>Python builtins used by \<^verbatim>\<open>create_seed\<close>\<close>

text \<open>\<^verbatim>\<open>str(val)\<close> of a Python integer: decimal digits, a minus sign when negative.\<close>

definition digit_char :: "nat \<Rightarrow> char" where
  "digit_char d = ''0123456789'' ! d"

fun decimal :: "nat \<Rightarrow> string" where
  "decimal n = (if n < 10 then [digit_char n] else decimal (n div 10) @ [digit_char (n mod 10)])"

declare decimal.simps [simp del]

definition str :: "int \<Rightarrow> string" where
  "str v = (if v < 0 then CHR ''-'' # decimal (nat (- v)) else decimal (nat v))"

text \<open>\<^verbatim>\<open>bytes(s, "utf-8")\<close> on the ASCII text that \<^verbatim>\<open>str\<close> produces.\<close>

definition utf8 :: "string \<Rightarrow> byte list" where
  "utf8 s = map (\<lambda>c. of_char c) s"

text \<open>
  The slice \<^verbatim>\<open>s[:stop:-1]\<close>: the start defaults to the last index, a negative stop
  counts from the end and is then clamped to -1, a non-negative stop is clamped to the
  last index; the characters at the indices above the stop are read downwards.
\<close>

definition slice_down :: "string \<Rightarrow> int \<Rightarrow> string" where
  "slice_down s stop =
     (let n = int (length s);
          st = (if stop < 0 then max (stop + n) (- 1) else min stop (n - 1))
      in take (nat (n - 1 - st)) (rev s))"

text \<open>
  \<^verbatim>\<open>int(s, base=16)\<close> on a string of hexadecimal digits; the empty string and any
  other character raise \<^verbatim>\<open>ValueError\<close>. (Signs, blanks, underscores and an
  \<^verbatim>\<open>0x\<close> prefix, which Python also reads, do not occur in a slice of a hex digest.)
\<close>

definition hexval :: "char \<Rightarrow> nat option" where
  "hexval c =
     (let k = (of_char c :: nat)
      in if 48 \<le> k \<and> k \<le> 57 then Some (k - 48)
         else if 97 \<le> k \<and> k \<le> 102 then Some (k - 87)
         else if 65 \<le> k \<and> k \<le> 70 then Some (k - 55)
         else None)"

fun parse_hex :: "int \<Rightarrow> string \<Rightarrow> error + int" where
  "parse_hex acc [] = Inr acc"
| "parse_hex acc (c # cs) =
     (case hexval c of None \<Rightarrow> Inl ValueError | Some d \<Rightarrow> parse_hex (16 * acc + int d) cs)"

definition int_base16 :: "string \<Rightarrow> error + int" where
  "int_base16 s = (if s = [] then Inl ValueError else parse_hex 0 s)"

section \<open>The seed function\<close>

text \<open>
  \<^verbatim>\<open>create_seed(val, n_hex=16)\<close> of \<^verbatim>\<open>deterministic_event_seeds_setup\<close>:
  \<^verbatim>\<open>int(hashlib.sha256(bytes(str(val), "utf-8")).hexdigest()[:-(n_hex + 1):-1], base=16)\<close>.
\<close>

definition create_seed :: "int \<Rightarrow> int \<Rightarrow> error + int" where
  "create_seed val n_hex =
     int_base16 (slice_down (hexdigest (sha256 (utf8 (str val)))) (- (n_hex + 1)))"

text \<open>
  The digest mixer in the words of the specification: the decimal text of the value, its
  SHA-256 digest as a hex string, the last \<open>hex_chars\<close> characters of that string in
  reverse order, parsed in base 16.
\<close>

definition last_chars :: "nat \<Rightarrow> string \<Rightarrow> string" where
  "last_chars k s = drop (length s - k) s"

definition digest_to_u64 :: "nat \<Rightarrow> nat \<Rightarrow> error + int" where
  "digest_to_u64 v hex_chars =
     int_base16 (rev (last_chars hex_chars (hexdigest (sha256 (utf8 (decimal v))))))"


text \<open>The digest reduced to the seed width, \<open>digest_to_u64 \<dots> mod 2^64\<close>.\<close>

definition digest_mod :: "nat \<Rightarrow> nat \<Rightarrow> error + 64 word" where
  "digest_mod v hex_chars =
     (case digest_to_u64 v hex_chars of Inl e \<Rightarrow> Inl e | Inr d \<Rightarrow> Inr (word_of_int d))"

text \<open>
  \<^verbatim>\<open>np.vectorize(create_seed, otypes=[np.uint64])\<close>: the elements of the unsigned 64-bit
  input array are handed to \<^verbatim>\<open>create_seed\<close> as Python integers, and the Python integers
  it returns are stored in an unsigned 64-bit array; a value outside that range cannot be
  stored.
\<close>

definition to_uint64 :: "int \<Rightarrow> error + 64 word" where
  "to_uint64 v = (if 0 \<le> v \<and> v < 2 ^ 64 then Inr (word_of_int v) else Inl OverflowError)"

definition create_seed_vec :: "64 word list \<Rightarrow> int \<Rightarrow> error + 64 word list" where
  "create_seed_vec vals n_hex = mapM (\<lambda>w. bind (create_seed (uint w) n_hex) to_uint64) vals"

section \<open>NumPy integer arrays\<close>

text \<open>
  An integer array carries its dtype; arithmetic on it is done in that dtype and wraps
  around silently. The values are kept as mathematical integers and reduced into the
  range of the dtype after each operation: modulo \<open>2^bits\<close> for an unsigned dtype, and
  into \<open>-2^(bits-1) \<dots> 2^(bits-1) - 1\<close> for a signed one.
\<close>

datatype dtype = Int8 | Int16 | Int32 | Int64 | UInt8 | UInt16 | UInt32 | UInt64

fun bits :: "dtype \<Rightarrow> nat" where
  "bits Int8 = 8" | "bits Int16 = 16" | "bits Int32 = 32" | "bits Int64 = 64"
| "bits UInt8 = 8" | "bits UInt16 = 16" | "bits UInt32 = 32" | "bits UInt64 = 64"

fun is_signed :: "dtype \<Rightarrow> bool" where
  "is_signed Int8 = True" | "is_signed Int16 = True"
| "is_signed Int32 = True" | "is_signed Int64 = True"
| "is_signed UInt8 = False" | "is_signed UInt16 = False"
| "is_signed UInt32 = False" | "is_signed UInt64 = False"

definition wrap :: "dtype \<Rightarrow> int \<Rightarrow> int" where
  "wrap dt x =
     (if is_signed dt then (x + 2 ^ (bits dt - 1)) mod 2 ^ bits dt - 2 ^ (bits dt - 1)
      else x mod 2 ^ bits dt)"

type_synonym flat = "dtype \<times> int list"
type_synonym jagged = "dtype \<times> int list list"

text \<open>\<^verbatim>\<open>array + k\<close> for a Python integer \<open>k\<close>: the result keeps the dtype of the array.\<close>

definition add_scalar :: "flat \<Rightarrow> int \<Rightarrow> flat" where
  "add_scalar a k = (fst a, map (\<lambda>v. wrap (fst a) (v + k)) (snd a))"

definition jadd_scalar :: "jagged \<Rightarrow> int \<Rightarrow> jagged" where
  "jadd_scalar a k = (fst a, map (map (\<lambda>v. wrap (fst a) (v + k))) (snd a))"

text \<open>\<^verbatim>\<open>array ** 2\<close>: the square, in the dtype of the array.\<close>

definition jsquare :: "jagged \<Rightarrow> jagged" where
  "jsquare a = (fst a, map (map (\<lambda>v. wrap (fst a) (v * v))) (snd a))"

text \<open>
  \<^verbatim>\<open>array % len(table)\<close>: the Python integer is brought into the dtype of the array. The
  length of an array is below \<open>2^63\<close>, so that both 64-bit dtypes hold it as it is; a
  dtype of fewer bits keeps the low bits of it, and a length of 200 is -56 in a signed
  8-bit array.
\<close>

definition len_as :: "dtype \<Rightarrow> nat \<Rightarrow> int" where
  "len_as dt n = (if bits dt = 64 then int n else wrap dt (int n))"

text \<open>
  The remainder has the sign of the divisor, as Python's has; an integer remainder by zero
  is 0 in NumPy. The result is used as an index only, so its dtype is dropped.
\<close>

definition mod_scalar :: "flat \<Rightarrow> nat \<Rightarrow> int list" where
  "mod_scalar a n =
     (let d = len_as (fst a) n
      in map (\<lambda>v. if d = 0 then 0 else v mod d) (snd a))"

text \<open>
  \<^verbatim>\<open>a * loc\<close> for an array \<open>loc\<close> of dtype int64: the result type of any integer dtype
  with int64 is int64, except for uint64, where it is float64 (\<open>None\<close> below).
\<close>

definition jmul_int64 :: "jagged \<Rightarrow> int list list \<Rightarrow> int list list option" where
  "jmul_int64 a loc =
     (if fst a = UInt64 then None
      else Some (map2 (map2 (\<lambda>v l. wrap Int64 (v * l))) (snd a) loc))"

text \<open>\<^verbatim>\<open>ak.local_index(values) + 1\<close>, \<^verbatim>\<open>ak.num(values, axis=-1)\<close> and
  \<^verbatim>\<open>ak.sum(x, axis=-1)\<close>, all of dtype int64.\<close>

definition local_index :: "'a list list \<Rightarrow> int list list" where
  "local_index xss = map (\<lambda>xs. map int [0..<length xs]) xss"

definition ak_num :: "'a list list \<Rightarrow> int list" where
  "ak_num xss = map (\<lambda>xs. int (length xs)) xss"

definition ak_sum :: "int list list \<Rightarrow> int list" where
  "ak_sum xss = map (\<lambda>xs. wrap Int64 (sum_list xs)) xss"

definition add_int64 :: "int list \<Rightarrow> int list \<Rightarrow> int list" where
  "add_int64 xs ys = map2 (\<lambda>x y. wrap Int64 (x + y)) xs ys"

text \<open>\<^verbatim>\<open>ak.values_astype(a, np.uint64)\<close>: the value modulo \<open>2^64\<close>.\<close>

definition values_astype_u64 :: "int list \<Rightarrow> 64 word list" where
  "values_astype_u64 vs = map word_of_int vs"

text \<open>Elementwise sum and product of unsigned 64-bit arrays, and the product with a scalar.\<close>

definition vadd :: "64 word list \<Rightarrow> 64 word list \<Rightarrow> 64 word list" where
  "vadd xs ys = map2 (+) xs ys"

definition vmul :: "64 word list \<Rightarrow> 64 word list \<Rightarrow> 64 word list" where
  "vmul xs ys = map2 (*) xs ys"

definition smul :: "64 word \<Rightarrow> 64 word list \<Rightarrow> 64 word list" where
  "smul k xs = map (\<lambda>x. k * x) xs"

text \<open>
  \<^verbatim>\<open>self.primes[k]\<close> and \<^verbatim>\<open>self.primes[index_array]\<close>: a negative index counts from
  the end, an index out of range raises \<^verbatim>\<open>IndexError\<close>.
\<close>

definition getitem1 :: "64 word list \<Rightarrow> int \<Rightarrow> error + 64 word" where
  "getitem1 tab k =
     (let n = int (length tab); j = (if k < 0 then k + n else k)
      in if 0 \<le> j \<and> j < n then Inr (tab ! nat j) else Inl IndexError)"

definition getitem :: "64 word list \<Rightarrow> int list \<Rightarrow> error + 64 word list" where
  "getitem tab ks = mapM (getitem1 tab) ks"

section \<open>Batches of events\<close>

text \<open>
  An awkward array of events is a list of records with one batch-wide type. The type says
  which optional per-event scalar fields and which object collections exist in the batch,
  and the dtype of every such field; it is the same for all events. The required fields
  \<^verbatim>\<open>run\<close>, \<^verbatim>\<open>luminosityBlock\<close> and \<^verbatim>\<open>event\<close> are declared as used columns
  without \<^verbatim>\<open>optional\<close> and are always there. Per-event scalar fields are named by
  their route (\<^verbatim>\<open>Pileup.nPU\<close>, \<^verbatim>\<open>nJet\<close>, \<^verbatim>\<open>deterministic_seed\<close>), object-level
  fields by their collection and field name.
\<close>

type_synonym obj = "string \<Rightarrow> int"

record event_rec =
  run :: int
  luminosityBlock :: int
  event :: int
  scalars :: "string \<Rightarrow> int"
  objects :: "string \<Rightarrow> obj list"

record batch =
  scalar_dt :: "string \<rightharpoonup> dtype"
  coll_dt :: "string \<rightharpoonup> (string \<rightharpoonup> dtype)"
  events :: "event_rec list"

text \<open>The producer instance \<^verbatim>\<open>self\<close>: the prime table
  (\<^verbatim>\<open>columnflow.util.primes\<close> as an unsigned 64-bit array, a parameter here) and
  \<^verbatim>\<open>self.dataset_inst.is_mc\<close>.\<close>

record producer =
  primes :: "64 word list"
  is_mc :: bool

text \<open>
  \<^verbatim>\<open>Route(f).apply(events)\<close> raises \<^verbatim>\<open>FieldNotFoundError\<close> for a missing field;
  \<^verbatim>\<open>apply_field\<close> catches it and returns \<^verbatim>\<open>None\<close>; the attribute access
  \<^verbatim>\<open>events.f\<close> raises \<^verbatim>\<open>AttributeError\<close>.
\<close>

definition route_scalar :: "batch \<Rightarrow> string \<Rightarrow> error + flat" where
  "route_scalar b f =
     (case scalar_dt b f of
        None \<Rightarrow> Inl FieldNotFoundError
      | Some dt \<Rightarrow> Inr (dt, map (\<lambda>e. scalars e f) (events b)))"

definition route_coll :: "batch \<Rightarrow> string \<Rightarrow> error + obj list list" where
  "route_coll b c =
     (case coll_dt b c of
        None \<Rightarrow> Inl FieldNotFoundError
      | Some fs \<Rightarrow> Inr (map (\<lambda>e. objects e c) (events b)))"

definition route_field :: "batch \<Rightarrow> string \<times> string \<Rightarrow> error + jagged" where
  "route_field b cf =
     (case coll_dt b (fst cf) of
        None \<Rightarrow> Inl FieldNotFoundError
      | Some fs \<Rightarrow>
          (case fs (snd cf) of
             None \<Rightarrow> Inl FieldNotFoundError
           | Some dt \<Rightarrow> Inr (dt, map (\<lambda>e. map (\<lambda>ob. ob (snd cf)) (objects e (fst cf))) (events b))))"

definition apply_field :: "(batch \<Rightarrow> 'r \<Rightarrow> error + 'a) \<Rightarrow> batch \<Rightarrow> 'r \<Rightarrow> 'a option" where
  "apply_field route b f = (case route b f of Inl e \<Rightarrow> None | Inr a \<Rightarrow> Some a)"

definition getattr :: "(batch \<Rightarrow> 'r \<Rightarrow> error + 'a) \<Rightarrow> batch \<Rightarrow> 'r \<Rightarrow> error + 'a" where
  "getattr route b f = (case route b f of Inl e \<Rightarrow> Inl AttributeError | Inr a \<Rightarrow> Inr a)"

text \<open>
  \<^verbatim>\<open>set_ak_column(events, route, values, value_type=np.uint64)\<close> for a per-event scalar
  field and for a field of the objects of a collection: the field is added to the type of
  the batch, or replaced there, and every event (every object) gets its value.
\<close>

definition set_ak_column :: "batch \<Rightarrow> string \<Rightarrow> 64 word list \<Rightarrow> batch" where
  "set_ak_column b f vals =
     b\<lparr>scalar_dt := (scalar_dt b)(f \<mapsto> UInt64),
       events := map2 (\<lambda>e v. e\<lparr>scalars := (scalars e)(f := uint v)\<rparr>) (events b) vals\<rparr>"

definition set_ak_field :: "batch \<Rightarrow> string \<times> string \<Rightarrow> 64 word list list \<Rightarrow> batch" where
  "set_ak_field b cf vals =
     b\<lparr>coll_dt := (coll_dt b)(fst cf \<mapsto>
          (case coll_dt b (fst cf) of None \<Rightarrow> Map.empty | Some fs \<Rightarrow> fs)(snd cf \<mapsto> UInt64)),
       events := map2 (\<lambda>e vs. e\<lparr>objects := (objects e)(fst cf :=
          map2 (\<lambda>ob v. ob(snd cf := uint v)) (objects e (fst cf)) vs)\<rparr>) (events b) vals\<rparr>"

section \<open>The event seed producer\<close>

text \<open>A loop whose body can raise: the first error ends it.\<close>

fun foldM :: "('x \<Rightarrow> 's \<Rightarrow> error + 's) \<Rightarrow> 'x list \<Rightarrow> 's \<Rightarrow> error + 's" where
  "foldM f [] s = Inr s"
| "foldM f (x # xs) s = (case f x s of Inl e \<Rightarrow> Inl e | Inr s' \<Rightarrow> foldM f xs s')"

text \<open>Lines 54 to 61: the seed every event starts from.\<close>

definition bootstrap :: "producer \<Rightarrow> batch \<Rightarrow> error + 64 word list" where
  "bootstrap self b =
     bind (getitem1 (primes self) 7) (\<lambda>p7.
     bind (getitem1 (primes self) 5) (\<lambda>p5.
     bind (getitem1 (primes self) 3) (\<lambda>p3.
       create_seed_vec
         (vadd (vadd (smul p7 (values_astype_u64 (map event (events b))))
                     (smul p5 (values_astype_u64 (map run (events b)))))
               (smul p3 (values_astype_u64 (map luminosityBlock (events b)))))
         14)))"

text \<open>Lines 64 to 78: the global fields are gathered, and the object count of every
  collection that is there is stored in the batch as \<^verbatim>\<open>n<collection>\<close>.\<close>

definition collections :: "producer \<Rightarrow> string list" where
  "collections self =
     [''Jet'', ''FatJet'', ''SubJet'', ''Photon'', ''Muon'', ''Electron'', ''Tau'', ''SV'']
       @ (if is_mc self then [''GenJet'', ''GenPart''] else [])"

definition flat_fields :: "batch \<Rightarrow> string list" where
  "flat_fields b =
     (if apply_field route_scalar b ''Pileup.nPU'' \<noteq> None then [''Pileup.nPU''] else [])"

fun count_collections :: "string list \<Rightarrow> string list \<times> batch \<Rightarrow> string list \<times> batch" where
  "count_collections [] st = st"
| "count_collections (col # cols) (global_fields, b) =
     (case apply_field route_coll b col of
        None \<Rightarrow> count_collections cols (global_fields, b)
      | Some arr \<Rightarrow>
          count_collections cols
            (global_fields @ [''n'' @ col],
             set_ak_column b (''n'' @ col) (values_astype_u64 (ak_num arr))))"

text \<open>Lines 81 to 86: the body of the loop over the enumerated global fields.\<close>

definition value_offset :: nat where
  "value_offset = 3"

definition prime_offset :: int where
  "prime_offset = 15"

definition global_step :: "producer \<Rightarrow> batch \<Rightarrow> nat \<times> string \<Rightarrow> 64 word list \<Rightarrow> error + 64 word list" where
  "global_step self b itf seed =
     bind (route_scalar b (snd itf)) (\<lambda>col.
       let values = add_scalar col (int (fst itf))
       in bind (getitem (primes self)
                  (mod_scalar (add_scalar values prime_offset) (length (primes self)))) (\<lambda>ps.
            Inr (vadd seed (vmul ps (values_astype_u64 (snd values))))))"

text \<open>Lines 90 to 105: the object fields, and the body of the loop over them. A field that
  is not in the batch is skipped by \<^verbatim>\<open>continue\<close>. Where the products are float64, the
  hash is a float array, which cannot index the prime table unless it is empty.\<close>

definition object_fields :: "(string \<times> string) list" where
  "object_fields =
     [(''Electron'', ''jetIdx''), (''Electron'', ''seediPhiOriY''), (''Tau'', ''jetIdx''),
      (''Tau'', ''decayMode''), (''Muon'', ''jetIdx''), (''Muon'', ''nStations''),
      (''Jet'', ''nConstituents''), (''Jet'', ''nElectrons''), (''Jet'', ''nMuons'')]"

definition hashed :: "jagged \<Rightarrow> flat option" where
  "hashed values =
     (let loc = map (map (\<lambda>j. wrap Int64 (j + 1))) (local_index (snd values))
      in case jmul_int64 values loc of
           None \<Rightarrow> None
         | Some vl \<Rightarrow>
             (case jmul_int64 (jsquare values) loc of
                None \<Rightarrow> None
              | Some sl \<Rightarrow>
                  Some (Int64, add_int64 (add_int64 (ak_num (snd values)) (ak_sum vl)) (ak_sum sl))))"

definition object_step :: "producer \<Rightarrow> batch \<Rightarrow> nat \<times> string \<times> string \<Rightarrow> 64 word list \<Rightarrow> error + 64 word list" where
  "object_step self b itf seed =
     (case apply_field route_field b (snd itf) of
        None \<Rightarrow> Inr seed
      | Some col \<Rightarrow>
          (case hashed (jadd_scalar col (int (fst itf))) of
             None \<Rightarrow> if events b = [] then Inr (vadd seed []) else Inl IndexError
           | Some h \<Rightarrow>
               bind (getitem (primes self)
                       (mod_scalar (add_scalar h prime_offset) (length (primes self)))) (\<lambda>ps.
                 Inr (vadd seed (vmul ps (values_astype_u64 (snd h)))))))"

text \<open>\<^verbatim>\<open>deterministic_event_seeds\<close>, lines 42 to 117.\<close>

definition event_seed_input :: "producer \<Rightarrow> batch \<Rightarrow> error + (batch \<times> 64 word list)" where
  "event_seed_input self b =
     bind (bootstrap self b) (\<lambda>seed.
       case count_collections (collections self) (flat_fields b, b) of
         (global_fields, b1) \<Rightarrow>
           bind (foldM (global_step self b1) (enumerate value_offset global_fields) seed) (\<lambda>seed.
           bind (foldM (object_step self b1) (enumerate value_offset object_fields) seed) (\<lambda>seed.
             Inr (b1, seed))))"

definition deterministic_event_seeds :: "producer \<Rightarrow> batch \<Rightarrow> error + batch" where
  "deterministic_event_seeds self b =
     bind (event_seed_input self b) (\<lambda>(b1, seed).
     bind (create_seed_vec seed 16) (\<lambda>seed.
       Inr (set_ak_column b1 ''deterministic_seed'' seed)))"

section \<open>The jet seed producer and the wrapper\<close>

text \<open>
  \<^verbatim>\<open>deterministic_jet_seeds\<close>, lines 158 to 185. The event seeds are read back from the
  batch as unsigned 64-bit values. \<^verbatim>\<open>np_jet_seed\<close> is a view of the flattened content
  of \<^verbatim>\<open>jet_seed\<close>, so that the assignment \<^verbatim>\<open>np_jet_seed[:] = \<dots>\<close> replaces every
  element of \<^verbatim>\<open>jet_seed\<close> by its digest; \<open>unflatten\<close> restores the lists.
\<close>

fun unflatten :: "nat list \<Rightarrow> 'a list \<Rightarrow> 'a list list" where
  "unflatten [] xs = []"
| "unflatten (n # ns) xs = take n xs # unflatten ns (drop n xs)"

definition jet_seed_input :: "64 word \<Rightarrow> 64 word list \<Rightarrow> 64 word list \<Rightarrow> obj list list \<Rightarrow> 64 word list list" where
  "jet_seed_input p50 seeds ps jets =
     map2 (\<lambda>(s, p) js. map (\<lambda>j. s + p * (word_of_int j + p50)) js)
       (zip seeds ps) (local_index jets)"

definition deterministic_jet_seeds :: "producer \<Rightarrow> batch \<Rightarrow> error + batch" where
  "deterministic_jet_seeds self b =
     bind (deterministic_event_seeds self b) (\<lambda>b1.
     bind (getattr route_scalar b1 ''deterministic_seed'') (\<lambda>seed.
     bind (getitem (primes self) (mod_scalar seed (length (primes self)))) (\<lambda>ps.
     bind (getattr route_coll b1 ''Jet'') (\<lambda>jets.
     bind (getitem1 (primes self) 50) (\<lambda>p50.
       let jet_seed = jet_seed_input p50 (values_astype_u64 (snd seed)) ps jets
       in bind (create_seed_vec (concat jet_seed) 16) (\<lambda>np_jet_seed.
            Inr (set_ak_field b1 (''Jet'', ''deterministic_seed'')
                   (unflatten (map length jet_seed) np_jet_seed))))))))"

text \<open>\<^verbatim>\<open>deterministic_seeds\<close>, lines 203 to 214.\<close>

definition deterministic_seeds :: "producer \<Rightarrow> batch \<Rightarrow> error + batch" where
  "deterministic_seeds self b =
     bind (deterministic_event_seeds self b) (\<lambda>b1. deterministic_jet_seeds self b1)"

section \<open>The seeds of one event\<close>

text \<open>
  The producers work on whole columns. The definitions of this section compute the same
  values for one event at a time; the columns are related to them below.
\<close>

text \<open>The value of a string of hex digits, and the digest of an unsigned 64-bit value
  reduced to 64 bits.\<close>

definition hexdigit :: "char \<Rightarrow> int" where
  "hexdigit c = (case hexval c of None \<Rightarrow> 0 | Some d \<Rightarrow> int d)"

definition hex_value :: "string \<Rightarrow> int" where
  "hex_value s = foldl (\<lambda>a c. 16 * a + hexdigit c) 0 s"

definition mix :: "nat \<Rightarrow> 64 word \<Rightarrow> 64 word" where
  "mix k w = word_of_int (hex_value (take k (rev (hexdigest (sha256 (utf8 (decimal (unat w))))))))"

text \<open>The prime table of the specification: \<open>prime_at(index) = table[index mod len(table)]\<close>.\<close>

definition prime_at :: "64 word list \<Rightarrow> nat \<Rightarrow> 64 word" where
  "prime_at tab k = tab ! (k mod length tab)"

text \<open>The seed an event starts from.\<close>

definition boot_ev :: "64 word list \<Rightarrow> event_rec \<Rightarrow> 64 word" where
  "boot_ev tab e =
     mix 14 (tab ! 7 * word_of_int (event e) + tab ! 5 * word_of_int (run e)
             + tab ! 3 * word_of_int (luminosityBlock e))"

text \<open>The position in a table of \<open>n\<close> entries that the remainder of \<open>x\<close>, a value of
  dtype \<open>dt\<close>, selects: the remainder by the length as the dtype holds it, counted from
  the end of the table where it is negative.\<close>

definition table_index :: "dtype \<Rightarrow> nat \<Rightarrow> int \<Rightarrow> nat" where
  "table_index dt n x =
     (let d = len_as dt n;
          r = (if d = 0 then 0 else x mod d)
      in nat (if r < 0 then r + int n else r))"

text \<open>What a global field of dtype \<open>dt\<close> with the value \<open>v\<close> adds to the seed at the
  position \<open>i\<close>.\<close>

definition global_term :: "64 word list \<Rightarrow> dtype \<Rightarrow> nat \<Rightarrow> int \<Rightarrow> 64 word" where
  "global_term tab dt i v =
     (let a = wrap dt (v + int i)
      in tab ! table_index dt (length tab) (wrap dt (a + 15)) * word_of_int a)"

definition global_ev :: "64 word list \<Rightarrow> (string \<rightharpoonup> dtype) \<Rightarrow> event_rec \<Rightarrow> nat \<times> string \<Rightarrow> 64 word \<Rightarrow> 64 word" where
  "global_ev tab sdt e itf s =
     (case sdt (snd itf) of
        None \<Rightarrow> s
      | Some dt \<Rightarrow> s + global_term tab dt (fst itf) (scalars e (snd itf)))"

text \<open>What an object field of dtype \<open>dt\<close> with the per-object values \<open>vs\<close> adds to the
  seed at the position \<open>i\<close>: the shift and the square are taken in \<open>dt\<close>, the products
  and sums in int64.\<close>

definition hashed_ev :: "dtype \<Rightarrow> nat \<Rightarrow> int list \<Rightarrow> int" where
  "hashed_ev dt i vs =
     (let xs = map (\<lambda>v. wrap dt (v + int i)) vs;
          loc = map (\<lambda>j. wrap Int64 (int j + 1)) [0..<length vs]
      in wrap Int64
           (wrap Int64 (int (length vs)
              + wrap Int64 (sum_list (map2 (\<lambda>v l. wrap Int64 (v * l)) xs loc)))
            + wrap Int64 (sum_list (map2 (\<lambda>v l. wrap Int64 (wrap dt (v * v) * l)) xs loc))))"

definition object_term :: "64 word list \<Rightarrow> dtype \<Rightarrow> nat \<Rightarrow> int list \<Rightarrow> 64 word" where
  "object_term tab dt i vs =
     (let h = hashed_ev dt i vs
      in tab ! nat (wrap Int64 (h + 15) mod int (length tab)) * word_of_int h)"

definition field_dt :: "(string \<rightharpoonup> (string \<rightharpoonup> dtype)) \<Rightarrow> string \<times> string \<Rightarrow> dtype option" where
  "field_dt cdt cf = (case cdt (fst cf) of None \<Rightarrow> None | Some fs \<Rightarrow> fs (snd cf))"

definition field_values :: "event_rec \<Rightarrow> string \<times> string \<Rightarrow> int list" where
  "field_values e cf = map (\<lambda>ob. ob (snd cf)) (objects e (fst cf))"

definition object_ev :: "64 word list \<Rightarrow> (string \<rightharpoonup> (string \<rightharpoonup> dtype)) \<Rightarrow> event_rec \<Rightarrow> nat \<times> string \<times> string \<Rightarrow> 64 word \<Rightarrow> 64 word" where
  "object_ev tab cdt e itf s =
     (case field_dt cdt (snd itf) of
        None \<Rightarrow> s
      | Some dt \<Rightarrow> s + object_term tab dt (fst itf) (field_values e (snd itf)))"

text \<open>The collections of the batch that are counted, the global fields in the order of
  their enumeration, and the batch with the counts stored.\<close>

definition present_collections :: "producer \<Rightarrow> batch \<Rightarrow> string list" where
  "present_collections self b = filter (\<lambda>c. coll_dt b c \<noteq> None) (collections self)"

definition global_fields :: "producer \<Rightarrow> batch \<Rightarrow> string list" where
  "global_fields self b = flat_fields b @ map (\<lambda>c. ''n'' @ c) (present_collections self b)"

definition count_ev :: "string list \<Rightarrow> event_rec \<Rightarrow> event_rec" where
  "count_ev cs e =
     fold (\<lambda>c e. e\<lparr>scalars := (scalars e)(''n'' @ c := uint (word_of_int (int (length (objects e c))) :: 64 word))\<rparr>) cs e"

definition counted_dt :: "string list \<Rightarrow> (string \<rightharpoonup> dtype) \<Rightarrow> (string \<rightharpoonup> dtype)" where
  "counted_dt cs sdt = fold (\<lambda>c m. m(''n'' @ c \<mapsto> UInt64)) cs sdt"

definition set_count :: "batch \<Rightarrow> string \<Rightarrow> batch" where
  "set_count b c =
     set_ak_column b (''n'' @ c) (values_astype_u64 (ak_num (map (\<lambda>e. objects e c) (events b))))"

definition count_batch :: "string list \<Rightarrow> batch \<Rightarrow> batch" where
  "count_batch cs b =
     b\<lparr>scalar_dt := counted_dt cs (scalar_dt b), events := map (count_ev cs) (events b)\<rparr>"

text \<open>The seed of an event before and after the last digest, and the event with its
  counts and its seed stored.\<close>

definition pre_seed_ev :: "producer \<Rightarrow> batch \<Rightarrow> event_rec \<Rightarrow> 64 word" where
  "pre_seed_ev self b e =
     (let e1 = count_ev (present_collections self b) e
      in fold (object_ev (primes self) (coll_dt b) e1) (enumerate value_offset object_fields)
           (fold (global_ev (primes self) (counted_dt (present_collections self b) (scalar_dt b)) e1)
              (enumerate value_offset (global_fields self b))
              (boot_ev (primes self) e1)))"

definition event_seed :: "producer \<Rightarrow> batch \<Rightarrow> event_rec \<Rightarrow> 64 word" where
  "event_seed self b e = mix 16 (pre_seed_ev self b e)"

definition event_out :: "producer \<Rightarrow> batch \<Rightarrow> event_rec \<Rightarrow> event_rec" where
  "event_out self b e =
     (let e1 = count_ev (present_collections self b) e
      in e1\<lparr>scalars := (scalars e1)(''deterministic_seed'' := uint (event_seed self b e))\<rparr>)"

definition event_seeds_batch :: "producer \<Rightarrow> batch \<Rightarrow> batch" where
  "event_seeds_batch self b =
     b\<lparr>scalar_dt := (counted_dt (present_collections self b) (scalar_dt b))(''deterministic_seed'' \<mapsto> UInt64),
       events := map (event_out self b) (events b)\<rparr>"

text \<open>An object field of dtype uint64 makes the products floating point numbers.\<close>

definition float_free :: "batch \<Rightarrow> bool" where
  "float_free b = list_all (\<lambda>cf. field_dt (coll_dt b) cf \<noteq> Some UInt64) object_fields"

section \<open>The seeds of the jets of one event\<close>

definition jet_raw :: "64 word list \<Rightarrow> 64 word \<Rightarrow> nat \<Rightarrow> 64 word" where
  "jet_raw tab s j = s + tab ! (unat s mod length tab) * (of_nat j + tab ! 50)"

text \<open>The same in the words of the specification, with \<open>prime_at\<close>.\<close>

definition spec_jet_raw :: "64 word list \<Rightarrow> 64 word \<Rightarrow> nat \<Rightarrow> 64 word" where
  "spec_jet_raw tab s j = s + prime_at tab (unat s mod length tab) * (of_nat j + prime_at tab 50)"

definition jet_seeds_ev :: "64 word list \<Rightarrow> 64 word \<Rightarrow> nat \<Rightarrow> 64 word list" where
  "jet_seeds_ev tab s n = map (\<lambda>j. mix 16 (jet_raw tab s j)) [0..<n]"

definition jet_out :: "producer \<Rightarrow> batch \<Rightarrow> event_rec \<Rightarrow> event_rec" where
  "jet_out self b e =
     (let e1 = event_out self b e
      in e1\<lparr>objects := (objects e1)(''Jet'' :=
           map2 (\<lambda>ob v. ob(''deterministic_seed'' := uint v)) (objects e1 ''Jet'')
             (jet_seeds_ev (primes self) (event_seed self b e) (length (objects e1 ''Jet''))))\<rparr>)"

definition jet_seeds_batch :: "producer \<Rightarrow> batch \<Rightarrow> batch" where
  "jet_seeds_batch self b =
     (event_seeds_batch self b)
       \<lparr>coll_dt := (coll_dt b)(''Jet'' \<mapsto>
          (case coll_dt b ''Jet'' of None \<Rightarrow> Map.empty | Some fs \<Rightarrow> fs)(''deterministic_seed'' \<mapsto> UInt64)),
        events := map (jet_out self b) (events b)\<rparr>"

section \<open>Rearranged batches and chunks\<close>

text \<open>The batch with its events rearranged by a list of indices, \<^verbatim>\<open>events[p]\<close>, and the
  chunk \<^verbatim>\<open>events[lo:hi]\<close>. Both keep the type of the batch.\<close>

definition permute :: "nat list \<Rightarrow> batch \<Rightarrow> batch" where
  "permute p b = b\<lparr>events := map (\<lambda>i. events b ! i) p\<rparr>"

definition chunk :: "nat \<Rightarrow> nat \<Rightarrow> batch \<Rightarrow> batch" where
  "chunk lo hi b = b\<lparr>events := take (hi - lo) (drop lo (events b))\<rparr>"

section \<open>The fields a producer writes\<close>

text \<open>The per-event fields that the event seed producer stores: the seed, and the count
  of every counted collection of the batch.\<close>

definition added_fields :: "producer \<Rightarrow> batch \<Rightarrow> string set" where
  "added_fields self b =
     insert ''deterministic_seed'' ((\<lambda>c. ''n'' @ c) ` set (present_collections self b))"

text \<open>An event \<open>e1\<close> is the event \<open>e\<close> with other values of the scalar fields \<open>F\<close>; an event
  \<open>e2\<close> is the event \<open>e\<close> with another value of the field \<open>g\<close> of its jets.\<close>

definition scalars_added :: "string set \<Rightarrow> event_rec \<Rightarrow> event_rec \<Rightarrow> bool" where
  "scalars_added F e e1 \<longleftrightarrow>
     run e1 = run e \<and> luminosityBlock e1 = luminosityBlock e \<and> event e1 = event e
     \<and> objects e1 = objects e \<and> (\<forall>f. f \<notin> F \<longrightarrow> scalars e1 f = scalars e f)"

definition jet_field_added :: "string \<Rightarrow> event_rec \<Rightarrow> event_rec \<Rightarrow> bool" where
  "jet_field_added g e e2 \<longleftrightarrow>
     run e2 = run e \<and> luminosityBlock e2 = luminosityBlock e \<and> event e2 = event e
     \<and> scalars e2 = scalars e \<and> (\<forall>c. c \<noteq> ''Jet'' \<longrightarrow> objects e2 c = objects e c)
     \<and> list_all2 (\<lambda>ob ob2. \<forall>f. f \<noteq> g \<longrightarrow> ob2 f = ob f) (objects e ''Jet'') (objects e2 ''Jet'')"

section \<open>The enumeration the specification describes\<close>

text \<open>The object fields of the batch, for an enumeration in which a field that is not
  there takes no position.\<close>

definition present_object_fields :: "batch \<Rightarrow> (string \<times> string) list" where
  "present_object_fields b = filter (\<lambda>cf. field_dt (coll_dt b) cf \<noteq> None) object_fields"

section \<open>The updates the specification describes\<close>

text \<open>The update of the seed by a global feature with the raw value \<open>v\<close> at the position
  \<open>i\<close>, with every operation modulo \<open>2^64\<close>:
  \<open>adj = v + i\<close>, \<open>prime = prime_at((adj + prime_offset) mod table_len)\<close>,
  \<open>seed = seed + prime * adj\<close>.\<close>

definition spec_global_update :: "64 word list \<Rightarrow> nat \<Rightarrow> 64 word \<Rightarrow> 64 word \<Rightarrow> 64 word" where
  "spec_global_update tab i v seed =
     (let adj = v + of_nat i
      in seed + prime_at tab (unat (adj + 15) mod length tab) * adj)"

text \<open>The update of the seed by an object field with the per-object values \<open>vs\<close> at the
  position \<open>i\<close>, with every operation modulo \<open>2^64\<close>:
  \<open>hashed = count(values) + sum(values * loc) + sum(values^2 * loc)\<close> for the shifted
  values and the 1-based local indices, \<open>prime = prime_at((hashed + prime_offset) mod
  table_len)\<close>, \<open>seed = seed + prime * hashed\<close>.\<close>

definition spec_hashed :: "nat \<Rightarrow> 64 word list \<Rightarrow> 64 word" where
  "spec_hashed i vs =
     (let values = map (\<lambda>v. v + of_nat i) vs;
          loc = map of_nat [1..<length vs + 1]
      in of_nat (length values) + sum_list (map2 (\<lambda>v l. v * l) values loc)
         + sum_list (map2 (\<lambda>v l. v ^ 2 * l) values loc))"

definition spec_object_update :: "64 word list \<Rightarrow> nat \<Rightarrow> 64 word list \<Rightarrow> 64 word \<Rightarrow> 64 word" where
  "spec_object_update tab i vs seed =
     (let h = spec_hashed i vs
      in seed + prime_at tab (unat (h + 15) mod length tab) * h)"

text \<open>A value that the dtype holds: reducing it into the range of the dtype changes
  nothing.\<close>

definition representable :: "dtype \<Rightarrow> int \<Rightarrow> bool" where
  "representable dt x \<longleftrightarrow> wrap dt x = x"

section \<open>A prime table and sample batches\<close>

text \<open>Modelled from the spec: the prime table \<^verbatim>\<open>columnflow.util.primes\<close> is not among
  the sources. The specification asks for a fixed, ordered sequence of distinct primes,
  long enough for the position 50. The producers take the table as a parameter; the first
  100 primes stand for it where a concrete batch is evaluated.\<close>

definition first_primes :: "64 word list" where
  "first_primes =
     [
  2, 3, 5, 7, 11, 13, 17, 19, 23, 29,
      31, 37, 41, 43, 47, 53, 59, 61, 67, 71,
      73, 79, 83, 89, 97, 101, 103, 107, 109, 113,
      127, 131, 137, 139, 149, 151, 157, 163, 167, 173,
      179, 181, 191, 193, 197, 199, 211, 223, 227, 229,
      233, 239, 241, 251, 257, 263, 269, 271, 277, 281,
      283, 293, 307, 311, 313, 317, 331, 337, 347, 349,
      353, 359, 367, 373, 379, 383, 389, 397, 401, 409,
      419, 421, 431, 433, 439, 443, 449, 457, 461, 463,
      467, 479, 487, 491, 499, 503, 509, 521, 523, 541]"

definition sample_producer :: producer where
  "sample_producer = \<lparr>primes = first_primes, is_mc = False\<rparr>"

text \<open>An event with \<^verbatim>\<open>run = luminosityBlock = event = 1\<close> and no objects, alone in a
  batch without any optional field or collection.\<close>

definition plain_event :: event_rec where
  "plain_event =
     \<lparr>run = 1, luminosityBlock = 1, event = 1, scalars = (\<lambda>f. 0), objects = (\<lambda>c. [])\<rparr>"

definition bare_batch :: batch where
  "bare_batch = \<lparr>scalar_dt = Map.empty, coll_dt = Map.empty, events = [plain_event]\<rparr>"

text \<open>The same event in a batch that has the collection \<^verbatim>\<open>Jet\<close>, with none of the
  object fields of the producer; the event has no jets.\<close>

definition empty_jet_batch :: batch where
  "empty_jet_batch =
     \<lparr>scalar_dt = Map.empty, coll_dt = [''Jet'' \<mapsto> [''jetId'' \<mapsto> Int32]],
      events = [plain_event]\<rparr>"

text \<open>An event with two jets of 20 and 7 constituents, stored as unsigned 8-bit integers.\<close>

definition jet_event :: event_rec where
  "jet_event =
     \<lparr>run = 1, luminosityBlock = 1, event = 1, scalars = (\<lambda>f. 0),
      objects = (\<lambda>c. [])(''Jet'' := [(\<lambda>f. 0)(''nConstituents'' := 20),
                                       (\<lambda>f. 0)(''nConstituents'' := 7)])\<rparr>"

definition jet_batch :: batch where
  "jet_batch =
     \<lparr>scalar_dt = Map.empty, coll_dt = [''Jet'' \<mapsto> [''nConstituents'' \<mapsto> UInt8]],
      events = [jet_event]\<rparr>"

text \<open>An event with one muon, in a batch whose only collection is \<^verbatim>\<open>Muon\<close>.\<close>

definition muon_event :: event_rec where
  "muon_event =
     \<lparr>run = 1, luminosityBlock = 5, event = 42, scalars = (\<lambda>f. 0),
      objects = (\<lambda>c. [])(''Muon'' := [(\<lambda>f. 0)(''nStations'' := 3)])\<rparr>"

definition muon_batch :: batch where
  "muon_batch =
     \<lparr>scalar_dt = Map.empty, coll_dt = [''Muon'' \<mapsto> [''nStations'' \<mapsto> Int32]],
      events = [muon_event]\<rparr>"

text \<open>A batch of two events, one with two jets and one without.\<close>

definition two_event_batch :: batch where
  "two_event_batch =
     \<lparr>scalar_dt = Map.empty, coll_dt = [''Jet'' \<mapsto> [''nConstituents'' \<mapsto> UInt8]],
      events = [jet_event, plain_event]\<rparr>"

text \<open>An event with one electron, in a batch whose electrons have the field
  \<^verbatim>\<open>seediPhiOriY\<close> and lack \<^verbatim>\<open>jetIdx\<close>.\<close>

definition electron_event :: event_rec where
  "electron_event =
     \<lparr>run = 1, luminosityBlock = 1, event = 1, scalars = (\<lambda>f. 0),
      objects = (\<lambda>c. [])(''Electron'' := [(\<lambda>f. 0)(''seediPhiOriY'' := 5)])\<rparr>"

definition electron_batch :: batch where
  "electron_batch =
     \<lparr>scalar_dt = Map.empty, coll_dt = [''Electron'' \<mapsto> [''seediPhiOriY'' \<mapsto> Int32]],
      events = [electron_event]\<rparr>"

text \<open>Two events with a pileup count, stored as a signed 32-bit integer: one with 30
  interactions and two jets, and, alone in its batch, one whose count is within 7 of the
  largest 32-bit value.\<close>

definition pileup_event :: event_rec where
  "pileup_event = jet_event\<lparr>scalars := (\<lambda>f. 0)(''Pileup.nPU'' := 30)\<rparr>"

definition pileup_batch :: batch where
  "pileup_batch =
     \<lparr>scalar_dt = [''Pileup.nPU'' \<mapsto> Int32],
      coll_dt = [''Jet'' \<mapsto> [''nConstituents'' \<mapsto> UInt8]],
      events = [pileup_event]\<rparr>"

definition big_pileup_event :: event_rec where
  "big_pileup_event = plain_event\<lparr>scalars := (\<lambda>f. 0)(''Pileup.nPU'' := 2147483640)\<rparr>"

definition big_pileup_batch :: batch where
  "big_pileup_batch =
     \<lparr>scalar_dt = [''Pileup.nPU'' \<mapsto> Int32], coll_dt = Map.empty,
      events = [big_pileup_event]\<rparr>"

section \<open>Properties of the digest\<close>

lemma slice_down_take: "slice_down s (- int n - 1) = take n (rev s)"
proof (cases "n \<le> length s")
  case True
  then have "nat (int (length s) - 1 - max (- int n - 1 + int (length s)) (- 1)) = n"
    by simp
  then show ?thesis
    by (simp add: slice_down_def Let_def)
next
  case False
  then have "nat (int (length s) - 1 - max (- int n - 1 + int (length s)) (- 1)) = length s"
    by simp
  with False show ?thesis
    by (simp add: slice_down_def Let_def)
qed

lemma rev_last_chars: "rev (last_chars n s) = take n (rev s)"
  by (simp add: last_chars_def take_rev)

lemma bind_Inr [simp]: "bind (Inr x) f = f x"
  by (simp add: bind_def)

lemma bind_Inl [simp]: "bind (Inl e) f = Inl e"
  by (simp add: bind_def)

lemma mapM_total: "(\<And>x. x \<in> set xs \<Longrightarrow> f x = Inr (g x)) \<Longrightarrow> mapM f xs = Inr (map g xs)"
  by (induction xs) simp_all

lemma compress_length:
  assumes "length hs = 8"
  shows "length (compress hs blk) = 8"
proof -
  from assms obtain h0 h1 h2 h3 h4 h5 h6 h7 where hs: "hs = [h0, h1, h2, h3, h4, h5, h6, h7]"
    by (auto simp: eval_nat_numeral length_Suc_conv)
  show ?thesis
    unfolding hs by (simp split: prod.splits)
qed

lemma fold_compress_length:
  "length hs = 8 \<Longrightarrow> length (fold (\<lambda>blk hs. compress hs blk) bs hs) = 8"
  by (induction bs arbitrary: hs) (simp_all add: compress_length)

lemma length_concat_word_bytes: "length (concat (map word_bytes xs)) = 4 * length xs"
  by (induction xs) (simp_all add: word_bytes_def)

lemma length_sha256: "length (sha256 m) = 32"
  by (simp add: sha256_def Let_def length_concat_word_bytes fold_compress_length H256_def)

lemma length_hexdigest: "length (hexdigest bs) = 2 * length bs"
  by (induction bs) (simp_all add: hexdigest_def)

lemma hexval_lt: "hexval c = Some d \<Longrightarrow> d < 16"
  by (auto simp: hexval_def Let_def split: if_splits)

lemma hexval_hexchar_all: "list_all (\<lambda>n. hexval (hexchar n) = Some n) [0..<16]"
  by code_simp

lemma hexval_hexchar: "n < 16 \<Longrightarrow> hexval (hexchar n) = Some n"
  using hexval_hexchar_all by (simp add: list_all_iff)

lemma hexdigest_chars: "c \<in> set (hexdigest bs) \<Longrightarrow> hexval c \<noteq> None"
proof -
  have "unat b div 16 < 16" "unat b mod 16 < 16" for b :: byte
    using unsigned_less [of b, where ?'a = nat] by (simp_all add: less_mult_imp_div_less)
  then show "c \<in> set (hexdigest bs) \<Longrightarrow> hexval c \<noteq> None"
    by (auto simp: hexdigest_def hexval_hexchar)
qed

lemma hexdigit_range: "0 \<le> hexdigit c \<and> hexdigit c < 16"
  by (auto simp: hexdigit_def dest: hexval_lt split: option.splits)

lemma parse_hex_total:
  "(\<And>c. c \<in> set s \<Longrightarrow> hexval c \<noteq> None) \<Longrightarrow>
   parse_hex acc s = Inr (foldl (\<lambda>a c. 16 * a + hexdigit c) acc s)"
proof (induction s arbitrary: acc)
  case Nil
  then show ?case by simp
next
  case (Cons c cs)
  then obtain d where "hexval c = Some d" by fastforce
  with Cons show ?case by (simp add: hexdigit_def)
qed

lemma foldl_hex_bounds:
  "0 \<le> acc \<Longrightarrow> 0 \<le> foldl (\<lambda>a c. 16 * a + hexdigit c) acc s \<and>
     foldl (\<lambda>a c. 16 * a + hexdigit c) acc s < (acc + 1) * 16 ^ length s"
proof (induction s arbitrary: acc)
  case Nil
  then show ?case by simp
next
  case (Cons c cs)
  let ?F = "foldl (\<lambda>a c. 16 * a + hexdigit c) (16 * acc + hexdigit c) cs"
  have r: "0 \<le> hexdigit c" "hexdigit c < 16" using hexdigit_range by auto
  with Cons.prems have a: "0 \<le> 16 * acc + hexdigit c" by simp
  have "(16 * acc + hexdigit c + 1) * 16 ^ length cs \<le> (16 * acc + 16) * 16 ^ length cs"
    using r by (intro mult_right_mono) simp_all
  also have "\<dots> = (acc + 1) * 16 ^ length (c # cs)" by (simp add: algebra_simps)
  finally have le: "(16 * acc + hexdigit c + 1) * 16 ^ length cs \<le> (acc + 1) * 16 ^ length (c # cs)" .
  have eq: "foldl (\<lambda>a c. 16 * a + hexdigit c) acc (c # cs) = ?F" by simp
  from Cons.IH [OF a] have "0 \<le> ?F" "?F < (16 * acc + hexdigit c + 1) * 16 ^ length cs" by simp_all
  with le show ?case unfolding eq by linarith
qed

lemma hex_value_bounds: "0 \<le> hex_value s \<and> hex_value s < 16 ^ length s"
  using foldl_hex_bounds [of 0 s] by (simp add: hex_value_def)

lemma int_base16_total:
  "s \<noteq> [] \<Longrightarrow> (\<And>c. c \<in> set s \<Longrightarrow> hexval c \<noteq> None) \<Longrightarrow> int_base16 s = Inr (hex_value s)"
  by (simp add: int_base16_def hex_value_def parse_hex_total)

lemma digest_to_u64_total:
  assumes "0 < k"
  shows "digest_to_u64 v k = Inr (hex_value (take k (rev (hexdigest (sha256 (utf8 (decimal v)))))))"
proof -
  let ?h = "hexdigest (sha256 (utf8 (decimal v)))"
  have "length ?h = 64" by (simp add: length_hexdigest length_sha256)
  with assms have ne: "take k (rev ?h) \<noteq> []" by auto
  have "\<And>c. c \<in> set (take k (rev ?h)) \<Longrightarrow> hexval c \<noteq> None"
    using hexdigest_chars by (metis in_set_takeD set_rev)
  with ne show ?thesis
    by (simp add: digest_to_u64_def rev_last_chars int_base16_total)
qed

lemma digest_mod_mix: "0 < k \<Longrightarrow> digest_mod (unat w) k = Inr (mix k w)"
  by (simp add: digest_mod_def digest_to_u64_total mix_def)

lemma create_seed_uint:
  assumes "0 < k" "k \<le> 16"
  shows "bind (create_seed (uint w) (int k)) to_uint64 = Inr (mix k w)"
proof -
  let ?s = "take k (rev (hexdigest (sha256 (utf8 (decimal (unat w))))))"
  have cs: "create_seed (uint w) (int k) = Inr (hex_value ?s)"
    using digest_to_u64_total [of k "unat w"] assms(1)
    by (simp add: create_seed_def digest_to_u64_def str_def slice_down_take rev_last_chars)
  have "length ?s \<le> 16" using assms(2) by simp
  then have "(16::int) ^ length ?s \<le> 16 ^ 16"
    by (intro power_increasing) simp_all
  with hex_value_bounds [of ?s] have "0 \<le> hex_value ?s" "hex_value ?s < 2 ^ 64"
    by simp_all
  then show ?thesis
    unfolding cs by (simp add: to_uint64_def mix_def)
qed

lemma create_seed_vec_total:
  "0 < k \<Longrightarrow> k \<le> 16 \<Longrightarrow> create_seed_vec vals (int k) = Inr (map (mix k) vals)"
  unfolding create_seed_vec_def by (rule mapM_total) (rule create_seed_uint)

section \<open>Columns and events\<close>

lemma getitem1_nat: "k < length tab \<Longrightarrow> getitem1 tab (int k) = Inr (tab ! k)"
  by (simp add: getitem1_def Let_def)

lemma mapM_map_total:
  "(\<And>x. x \<in> set xs \<Longrightarrow> f (h x) = Inr (g x)) \<Longrightarrow> mapM f (map h xs) = Inr (map g xs)"
  by (induction xs) simp_all

lemma getitem_mod:
  assumes "tab \<noteq> []"
  shows "getitem tab (map (\<lambda>x. k x mod int (length tab)) xs)
         = Inr (map (\<lambda>x. tab ! nat (k x mod int (length tab))) xs)"
proof -
  have "getitem1 tab (k x mod int (length tab)) = Inr (tab ! nat (k x mod int (length tab)))" for x
  proof -
    have "0 < int (length tab)" using assms by simp
    then have "0 \<le> k x mod int (length tab)" "k x mod int (length tab) < int (length tab)"
      by (rule pos_mod_sign, rule pos_mod_bound)
    then show ?thesis by (simp add: getitem1_def Let_def)
  qed
  then show ?thesis
    by (simp add: getitem_def mapM_map_total)
qed

text \<open>The length of the table as a dtype holds it, and the entry that a remainder by it
  selects.\<close>

lemma len_as_64 [simp]: "len_as Int64 n = int n" "len_as UInt64 n = int n"
  by (simp_all add: len_as_def)

lemma wrap_nonneg_le:
  assumes "0 \<le> x"
  shows "wrap dt x \<le> x"
proof (cases "is_signed dt")
  case True
  have "(x + 2 ^ (bits dt - 1)) mod 2 ^ bits dt \<le> x + 2 ^ (bits dt - 1)"
    using assms by (intro zmod_le_nonneg_dividend) simp
  then show ?thesis using True by (simp add: wrap_def)
next
  case False
  have "x mod 2 ^ bits dt \<le> x"
    using assms by (rule zmod_le_nonneg_dividend)
  then show ?thesis using False by (simp add: wrap_def)
qed

lemma wrap_nonneg_ge:
  assumes "0 \<le> x"
  shows "- x \<le> wrap dt x"
proof (cases "is_signed dt")
  case True
  define h :: int where "h = 2 ^ (bits dt - 1)"
  have w: "(2 :: int) ^ bits dt = 2 * h"
    unfolding h_def by (cases dt) simp_all
  have h0: "0 < h" unfolding h_def by simp
  have m: "0 \<le> (x + h) mod (2 * h)"
    using h0 by simp
  have "- x \<le> (x + h) mod (2 * h) - h"
  proof (cases "x < h")
    case True
    with assms h0 have "(x + h) mod (2 * h) = x + h"
      by (intro mod_pos_pos_trivial) simp_all
    with assms show ?thesis by simp
  next
    case False
    with m show ?thesis by linarith
  qed
  then show ?thesis unfolding wrap_def w h_def [symmetric] by (simp only: True if_True)
next
  case False
  have "0 \<le> x mod 2 ^ bits dt" by simp
  with assms have "- x \<le> x mod 2 ^ bits dt" by linarith
  then show ?thesis using False by (simp add: wrap_def)
qed

lemma len_as_bounds: "- int n \<le> len_as dt n \<and> len_as dt n \<le> int n"
  using wrap_nonneg_le [of "int n" dt] wrap_nonneg_ge [of "int n" dt]
  by (simp add: len_as_def)

lemma getitem1_index:
  assumes "tab \<noteq> []"
  shows "getitem1 tab (if len_as dt (length tab) = 0 then 0 else x mod len_as dt (length tab))
         = Inr (tab ! table_index dt (length tab) x)"
proof -
  define n where "n = int (length tab)"
  define d where "d = len_as dt (length tab)"
  define r where "r = (if d = 0 then 0 else x mod d)"
  have n: "0 < n" using assms by (simp add: n_def)
  have d: "- n \<le> d" "d \<le> n"
    using len_as_bounds [of "length tab" dt] by (simp_all add: n_def d_def)
  have r: "- n < r \<and> r < n"
  proof (cases "d = 0")
    case True
    with n show ?thesis by (simp add: r_def)
  next
    case False
    show ?thesis
    proof (cases "0 < d")
      case True
      then have "0 \<le> x mod d" "x mod d < d"
        by (rule pos_mod_sign, rule pos_mod_bound)
      with d n show ?thesis using False by (simp add: r_def)
    next
      case neg: False
      with False have "d < 0" by simp
      then have "x mod d \<le> 0" "d < x mod d"
        by (rule neg_mod_sign, rule neg_mod_bound)
      with d n show ?thesis using False by (simp add: r_def)
    qed
  qed
  have "getitem1 tab r = Inr (tab ! nat (if r < 0 then r + n else r))"
    using r by (simp add: getitem1_def Let_def n_def)
  then show ?thesis
    unfolding table_index_def Let_def r_def d_def n_def .
qed

lemma getitem_index:
  assumes "tab \<noteq> []"
  shows "getitem tab (mod_scalar (dt, map k xs) (length tab))
         = Inr (map (\<lambda>x. tab ! table_index dt (length tab) (k x)) xs)"
  by (simp add: getitem_def mod_scalar_def Let_def comp_def mapM_map_total
      getitem1_index [OF assms])

lemma table_index_pos:
  assumes "n \<noteq> 0" "len_as dt n = int n"
  shows "table_index dt n x = nat (x mod int n)"
proof -
  have z: "int n \<noteq> 0" using assms(1) by simp
  have p: "\<not> x mod int n < 0" using assms(1) by (simp add: not_less)
  show ?thesis
    by (simp only: table_index_def Let_def assms(2) z p if_False)
qed

lemma table_index_64:
  assumes "n \<noteq> 0" "bits dt = 64"
  shows "table_index dt n x = nat (x mod int n)"
  using assms by (intro table_index_pos) (simp_all add: len_as_def)

lemma bootstrap_total:
  assumes "7 < length (primes self)"
  shows "bootstrap self b = Inr (map (boot_ev (primes self)) (events b))"
proof -
  have g: "getitem1 (primes self) 7 = Inr (primes self ! 7)"
    "getitem1 (primes self) 5 = Inr (primes self ! 5)"
    "getitem1 (primes self) 3 = Inr (primes self ! 3)"
    using assms getitem1_nat [of 7 "primes self"] getitem1_nat [of 5 "primes self"]
      getitem1_nat [of 3 "primes self"] by simp_all
  show ?thesis
    unfolding bootstrap_def g
    using create_seed_vec_total [of 14]
    by (simp add: vadd_def smul_def values_astype_u64_def map2_map_map boot_ev_def comp_def)
qed

lemma map2_right_map: "map2 f xs (map g xs) = map (\<lambda>x. f x (g x)) xs"
  by (induction xs) simp_all

lemma map2_left_map: "map2 f (map g xs) xs = map (\<lambda>x. f (g x) x) xs"
  by (induction xs) simp_all

lemma count_ev_Nil [simp]: "count_ev [] = (\<lambda>e. e)"
  by (simp add: count_ev_def fun_eq_iff)

lemma count_ev_Cons:
  "count_ev (c # cs) e =
     count_ev cs (e\<lparr>scalars := (scalars e)(''n'' @ c := uint (word_of_int (int (length (objects e c))) :: 64 word))\<rparr>)"
  by (simp add: count_ev_def)

lemma set_count_eq:
  "set_count b c =
     b\<lparr>scalar_dt := (scalar_dt b)(''n'' @ c \<mapsto> UInt64),
       events := map (\<lambda>e. e\<lparr>scalars := (scalars e)(''n'' @ c := uint (word_of_int (int (length (objects e c))) :: 64 word))\<rparr>) (events b)\<rparr>"
  by (simp add: set_count_def set_ak_column_def values_astype_u64_def ak_num_def map2_right_map comp_def)

lemma count_batch_Nil: "count_batch [] b = b"
  by (simp add: count_batch_def counted_dt_def)

lemma count_batch_Cons: "count_batch (c # cs) b = count_batch cs (set_count b c)"
  by (simp add: count_batch_def counted_dt_def count_ev_Cons set_count_eq comp_def)

lemma coll_dt_set_count: "coll_dt (set_count b c) = coll_dt b"
  by (simp add: set_count_eq)

lemma count_collections_eq:
  "count_collections cols (gf, b) =
     (gf @ map (\<lambda>c. ''n'' @ c) (filter (\<lambda>c. coll_dt b c \<noteq> None) cols),
      count_batch (filter (\<lambda>c. coll_dt b c \<noteq> None) cols) b)"
proof (induction cols arbitrary: gf b)
  case Nil
  then show ?case by (simp add: count_batch_Nil)
next
  case (Cons c cols)
  show ?case
  proof (cases "coll_dt b c")
    case None
    then show ?thesis
      by (simp add: apply_field_def route_coll_def Cons.IH)
  next
    case (Some fs)
    then have "count_collections (c # cols) (gf, b)
      = count_collections cols (gf @ [''n'' @ c], set_count b c)"
      by (simp add: apply_field_def route_coll_def set_count_def)
    then show ?thesis
      using Some by (simp add: Cons.IH coll_dt_set_count count_batch_Cons)
  qed
qed

lemma hashed_eq:
  assumes "dt \<noteq> UInt64"
  shows "hashed (jadd_scalar (dt, map g evs) (int i)) = Some (Int64, map (\<lambda>e. hashed_ev dt i (g e)) evs)"
  using assms
  by (simp add: hashed_def jadd_scalar_def jmul_int64_def jsquare_def local_index_def ak_num_def
      ak_sum_def add_int64_def hashed_ev_def Let_def map2_map_map comp_def zip_map1 zip_map2
      case_prod_beta zip_same_conv_map)

lemma hashed_float: "hashed (jadd_scalar (UInt64, vss) k) = None"
  by (simp add: hashed_def jadd_scalar_def jmul_int64_def Let_def)

lemma route_field_eq:
  "route_field b cf =
     (case field_dt (coll_dt b) cf of
        None \<Rightarrow> Inl FieldNotFoundError
      | Some dt \<Rightarrow> Inr (dt, map (\<lambda>e. field_values e cf) (events b)))"
  by (simp add: route_field_def field_dt_def field_values_def split: option.splits)

lemma object_step_eq:
  assumes "primes self \<noteq> []" "field_dt (coll_dt b) (snd itf) \<noteq> Some UInt64"
  shows "object_step self b itf (map s0 (events b))
         = Inr (map (\<lambda>e. object_ev (primes self) (coll_dt b) e itf (s0 e)) (events b))"
proof (cases "field_dt (coll_dt b) (snd itf)")
  case None
  then show ?thesis
    by (simp add: object_step_def apply_field_def route_field_eq object_ev_def)
next
  case (Some dt)
  with assms(2) have dt: "dt \<noteq> UInt64" by simp
  have n: "length (primes self) \<noteq> 0" using assms(1) by simp
  have idx: "mod_scalar (add_scalar (Int64, map h (events b)) prime_offset) (length (primes self))
        = map (\<lambda>e. wrap Int64 (h e + 15) mod int (length (primes self))) (events b)" for h
    using n by (simp add: mod_scalar_def add_scalar_def prime_offset_def comp_def Let_def)
  show ?thesis
    unfolding object_step_def apply_field_def route_field_eq Some
    by (simp add: hashed_eq [OF dt] idx getitem_mod [OF assms(1)])
       (simp add: vadd_def vmul_def values_astype_u64_def map2_map_map comp_def
          object_ev_def Some object_term_def Let_def)
qed

lemma object_pass_eq:
  assumes "primes self \<noteq> []"
    "\<And>itf. itf \<in> set ifs \<Longrightarrow> field_dt (coll_dt b) (snd itf) \<noteq> Some UInt64"
  shows "foldM (object_step self b) ifs (map s0 (events b))
         = Inr (map (\<lambda>e. fold (object_ev (primes self) (coll_dt b) e) ifs (s0 e)) (events b))"
  using assms(2)
proof (induction ifs arbitrary: s0)
  case Nil
  then show ?case by simp
next
  case (Cons itf ifs)
  then show ?case
    by (simp add: object_step_eq [OF assms(1)])
qed

lemma object_step_empty:
  assumes "events b = []"
  shows "object_step self b itf [] = Inr []"
  using assms
  by (simp add: object_step_def apply_field_def route_field_eq vadd_def add_scalar_def
      mod_scalar_def getitem_def hashed_def jadd_scalar_def jmul_int64_def jsquare_def
      local_index_def ak_num_def ak_sum_def add_int64_def vmul_def values_astype_u64_def Let_def
      split: option.splits)

lemma object_pass_empty:
  assumes "events b = []"
  shows "foldM (object_step self b) ifs [] = Inr []"
  by (induction ifs) (simp_all add: object_step_empty [OF assms])

lemma global_step_eq:
  assumes "primes self \<noteq> []" "scalar_dt b (snd itf) \<noteq> None"
  shows "global_step self b itf (map s0 (events b))
         = Inr (map (\<lambda>e. global_ev (primes self) (scalar_dt b) e itf (s0 e)) (events b))"
proof -
  from assms(2) obtain dt where dt: "scalar_dt b (snd itf) = Some dt" by auto
  have vals: "add_scalar (add_scalar (dt, map (\<lambda>e. scalars e (snd itf)) (events b)) (int (fst itf))) prime_offset
        = (dt, map (\<lambda>e. wrap dt (wrap dt (scalars e (snd itf) + int (fst itf)) + 15)) (events b))"
    by (simp add: add_scalar_def prime_offset_def comp_def)
  show ?thesis
    unfolding global_step_def route_scalar_def dt
    by (simp add: vals getitem_index [OF assms(1)] Let_def)
       (simp add: add_scalar_def vadd_def vmul_def values_astype_u64_def map2_map_map comp_def
          global_ev_def dt global_term_def Let_def)
qed

lemma global_pass_eq:
  assumes "primes self \<noteq> []" "\<And>itf. itf \<in> set ifs \<Longrightarrow> scalar_dt b (snd itf) \<noteq> None"
  shows "foldM (global_step self b) ifs (map s0 (events b))
         = Inr (map (\<lambda>e. fold (global_ev (primes self) (scalar_dt b) e) ifs (s0 e)) (events b))"
  using assms(2)
proof (induction ifs arbitrary: s0)
  case Nil
  then show ?case by simp
next
  case (Cons itf ifs)
  then show ?case
    by (simp add: global_step_eq [OF assms(1)])
qed

lemma count_ev_keeps [simp]:
  "run (count_ev cs e) = run e" "luminosityBlock (count_ev cs e) = luminosityBlock e"
  "event (count_ev cs e) = event e" "objects (count_ev cs e) = objects e"
  by (induction cs arbitrary: e) (simp_all add: count_ev_Cons)

lemma boot_ev_count [simp]: "boot_ev tab (count_ev cs e) = boot_ev tab e"
  by (simp add: boot_ev_def)

lemma field_values_count [simp]: "field_values (count_ev cs e) cf = field_values e cf"
  by (simp add: field_values_def)

lemma counted_dt_eq:
  "counted_dt cs m f = (if f \<in> (\<lambda>c. ''n'' @ c) ` set cs then Some UInt64 else m f)"
  unfolding counted_dt_def
  by (induction cs arbitrary: m) auto

lemma count_batch_dt [simp]:
  "scalar_dt (count_batch cs b) = counted_dt cs (scalar_dt b)"
  "coll_dt (count_batch cs b) = coll_dt b"
  by (simp_all add: count_batch_def)

lemma events_count_batch: "events (count_batch cs b) = map (count_ev cs) (events b)"
  by (simp add: count_batch_def)

lemma global_fields_present:
  assumes "f \<in> set (global_fields self b)"
  shows "counted_dt (present_collections self b) (scalar_dt b) f \<noteq> None"
  using assms
  by (auto simp: global_fields_def flat_fields_def apply_field_def route_scalar_def counted_dt_eq
      split: if_splits option.splits)

lemma in_set_enumerate_snd: "itf \<in> set (enumerate n xs) \<Longrightarrow> snd itf \<in> set xs"
  by (metis in_set_zipE enumerate_eq_zip prod.collapse)

lemma float_free_fields:
  "float_free b \<Longrightarrow> itf \<in> set (enumerate n object_fields) \<Longrightarrow>
   field_dt (coll_dt b) (snd itf) \<noteq> Some UInt64"
  by (auto simp: float_free_def list_all_iff dest: in_set_enumerate_snd)

lemma event_seed_input_total:
  assumes "7 < length (primes self)" "float_free b \<or> events b = []"
  shows "event_seed_input self b
         = Inr (count_batch (present_collections self b) b, map (pre_seed_ev self b) (events b))"
proof -
  let ?cs = "present_collections self b"
  let ?b1 = "count_batch ?cs b"
  let ?tab = "primes self"
  let ?G = "\<lambda>e. fold (global_ev ?tab (scalar_dt ?b1) e)
                 (enumerate value_offset (global_fields self b)) (boot_ev ?tab e)"
  let ?O = "\<lambda>e. fold (object_ev ?tab (coll_dt ?b1) e)
                 (enumerate value_offset object_fields) (?G e)"
  have ne: "?tab \<noteq> []" using assms(1) by auto
  have cc: "count_collections (collections self) (flat_fields b, b) = (global_fields self b, ?b1)"
    by (simp add: count_collections_eq global_fields_def present_collections_def)
  have boot: "bootstrap self b = Inr (map (boot_ev ?tab) (events ?b1))"
    by (simp add: bootstrap_total [OF assms(1)] events_count_batch comp_def)
  have glob: "foldM (global_step self ?b1) (enumerate value_offset (global_fields self b))
               (map (boot_ev ?tab) (events ?b1)) = Inr (map ?G (events ?b1))"
    by (rule global_pass_eq [OF ne])
       (auto dest!: in_set_enumerate_snd global_fields_present)
  have obj: "foldM (object_step self ?b1) (enumerate value_offset object_fields)
               (map ?G (events ?b1)) = Inr (map ?O (events ?b1))"
  proof (cases "float_free b")
    case True
    show ?thesis
      by (rule object_pass_eq [OF ne]) (use True float_free_fields in simp)
  next
    case False
    with assms(2) have "events ?b1 = []" by (simp add: events_count_batch)
    then show ?thesis
      using object_pass_empty [of ?b1 self] by simp
  qed
  have fin: "map ?O (events ?b1) = map (pre_seed_ev self b) (events b)"
    by (simp add: events_count_batch pre_seed_ev_def comp_def Let_def)
  show ?thesis
    unfolding event_seed_input_def boot cc bind_Inr prod.case glob obj fin ..
qed

lemma event_seeds_total:
  assumes "7 < length (primes self)" "float_free b \<or> events b = []"
  shows "deterministic_event_seeds self b = Inr (event_seeds_batch self b)"
  unfolding deterministic_event_seeds_def event_seed_input_total [OF assms]
  using create_seed_vec_total [of 16]
  by (simp add: set_ak_column_def event_seeds_batch_def event_out_def event_seed_def
      map2_map_map comp_def Let_def count_batch_def)

lemma getitem1_short: "\<not> k < length tab \<Longrightarrow> getitem1 tab (int k) = Inl IndexError"
  by (simp add: getitem1_def Let_def)

lemma event_seeds_short:
  assumes "\<not> 7 < length (primes self)"
  shows "deterministic_event_seeds self b = Inl IndexError"
  using getitem1_short [OF assms]
  by (simp add: deterministic_event_seeds_def event_seed_input_def bootstrap_def)

lemma object_step_float:
  assumes "field_dt (coll_dt b) (snd itf) = Some UInt64" "events b \<noteq> []"
  shows "object_step self b itf seed = Inl IndexError"
  using assms by (simp add: object_step_def apply_field_def route_field_eq hashed_float)

lemma object_pass_float:
  assumes "primes self \<noteq> []" "events b \<noteq> []"
    "\<exists>itf \<in> set ifs. field_dt (coll_dt b) (snd itf) = Some UInt64"
  shows "foldM (object_step self b) ifs (map s0 (events b)) = Inl IndexError"
  using assms(3)
proof (induction ifs arbitrary: s0)
  case Nil
  then show ?case by simp
next
  case (Cons itf ifs)
  show ?case
  proof (cases "field_dt (coll_dt b) (snd itf) = Some UInt64")
    case True
    then show ?thesis by (simp add: object_step_float assms(2))
  next
    case False
    with Cons.prems have "\<exists>itf \<in> set ifs. field_dt (coll_dt b) (snd itf) = Some UInt64" by auto
    then show ?thesis
      using False by (simp add: object_step_eq [OF assms(1)] Cons.IH)
  qed
qed

lemma snd_set_enumerate: "snd ` set (enumerate n xs) = set xs"
  by (metis map_snd_enumerate set_map)

lemma event_seeds_float:
  assumes "7 < length (primes self)" "\<not> float_free b" "events b \<noteq> []"
  shows "deterministic_event_seeds self b = Inl IndexError"
proof -
  let ?cs = "present_collections self b"
  let ?b1 = "count_batch ?cs b"
  let ?tab = "primes self"
  let ?G = "\<lambda>e. fold (global_ev ?tab (scalar_dt ?b1) e)
                 (enumerate value_offset (global_fields self b)) (boot_ev ?tab e)"
  have ne: "?tab \<noteq> []" using assms(1) by auto
  have cc: "count_collections (collections self) (flat_fields b, b) = (global_fields self b, ?b1)"
    by (simp add: count_collections_eq global_fields_def present_collections_def)
  have boot: "bootstrap self b = Inr (map (boot_ev ?tab) (events ?b1))"
    by (simp add: bootstrap_total [OF assms(1)] events_count_batch comp_def)
  have glob: "foldM (global_step self ?b1) (enumerate value_offset (global_fields self b))
               (map (boot_ev ?tab) (events ?b1)) = Inr (map ?G (events ?b1))"
    by (rule global_pass_eq [OF ne])
       (auto dest!: in_set_enumerate_snd global_fields_present)
  from assms(2) obtain cf where "cf \<in> set object_fields" "field_dt (coll_dt b) cf = Some UInt64"
    by (auto simp: float_free_def list_all_iff)
  moreover from this obtain itf where "itf \<in> set (enumerate value_offset object_fields)" "snd itf = cf"
    using snd_set_enumerate [of value_offset object_fields] by (metis imageE)
  ultimately have "\<exists>itf \<in> set (enumerate value_offset object_fields).
      field_dt (coll_dt ?b1) (snd itf) = Some UInt64"
    by auto
  moreover have "events ?b1 \<noteq> []" using assms(3) by (simp add: events_count_batch)
  ultimately have obj: "foldM (object_step self ?b1) (enumerate value_offset object_fields)
               (map ?G (events ?b1)) = Inl IndexError"
    by (intro object_pass_float [OF ne])
  show ?thesis
    unfolding deterministic_event_seeds_def event_seed_input_def boot cc bind_Inr prod.case glob obj
    by simp
qed

lemma event_seeds_Inr_iff:
  "deterministic_event_seeds self b = Inr b' \<longleftrightarrow>
     7 < length (primes self) \<and> (float_free b \<or> events b = []) \<and> b' = event_seeds_batch self b"
  using event_seeds_total [of self b] event_seeds_short [of self b] event_seeds_float [of self b]
  by (cases "7 < length (primes self)"; cases "float_free b"; cases "events b = []") auto

lemma unflatten_concat_map:
  "unflatten (map length xss) (map f (concat xss)) = map (map f) xss"
  by (induction xss) simp_all

lemma event_out_keeps [simp]:
  "run (event_out self b e) = run e" "luminosityBlock (event_out self b e) = luminosityBlock e"
  "event (event_out self b e) = event e" "objects (event_out self b e) = objects e"
  by (simp_all add: event_out_def Let_def)

lemma event_out_seed [simp]:
  "scalars (event_out self b e) ''deterministic_seed'' = uint (event_seed self b e)"
  by (simp add: event_out_def Let_def)

lemma event_seeds_batch_simps [simp]:
  "coll_dt (event_seeds_batch self b) = coll_dt b"
  "scalar_dt (event_seeds_batch self b) ''deterministic_seed'' = Some UInt64"
  by (simp_all add: event_seeds_batch_def)

lemma events_event_seeds_batch:
  "events (event_seeds_batch self b) = map (event_out self b) (events b)"
  by (simp add: event_seeds_batch_def)

lemma jet_seed_input_eq:
  "jet_seed_input p50 (map s evs) (map p evs) (map js evs)
   = map (\<lambda>e. map (\<lambda>j. s e + p e * (word_of_int (int j) + p50)) [0..<length (js e)]) evs"
  by (simp add: jet_seed_input_def local_index_def map2_map_map zip_map_map zip_same_conv_map
      comp_def case_prod_beta zip_map1 zip_map2)

lemma jet_part_total:
  assumes "50 < length (primes self)" "coll_dt b ''Jet'' \<noteq> None"
  shows "bind (getattr route_scalar (event_seeds_batch self b) ''deterministic_seed'') (\<lambda>seed.
     bind (getitem (primes self) (mod_scalar seed (length (primes self)))) (\<lambda>ps.
     bind (getattr route_coll (event_seeds_batch self b) ''Jet'') (\<lambda>jets.
     bind (getitem1 (primes self) 50) (\<lambda>p50.
       let jet_seed = jet_seed_input p50 (values_astype_u64 (snd seed)) ps jets
       in bind (create_seed_vec (concat jet_seed) 16) (\<lambda>np_jet_seed.
            Inr (set_ak_field (event_seeds_batch self b) (''Jet'', ''deterministic_seed'')
                   (unflatten (map length jet_seed) np_jet_seed)))))))
     = Inr (jet_seeds_batch self b)"
proof -
  let ?b1 = "event_seeds_batch self b"
  let ?tab = "primes self"
  have n: "length ?tab \<noteq> 0" using assms(1) by linarith
  then have ne: "?tab \<noteq> []" by simp
  have seed: "getattr route_scalar ?b1 ''deterministic_seed''
      = Inr (UInt64, map (\<lambda>e. uint (event_seed self b e)) (events b))"
    by (simp add: getattr_def route_scalar_def events_event_seeds_batch comp_def)
  have idx: "mod_scalar (UInt64, map (\<lambda>e. uint (event_seed self b e)) (events b)) (length ?tab)
      = map (\<lambda>e. uint (event_seed self b e) mod int (length ?tab)) (events b)"
    using n by (simp add: mod_scalar_def comp_def Let_def)
  from assms(2) obtain fs where fs: "coll_dt b ''Jet'' = Some fs" by auto
  have jets: "getattr route_coll ?b1 ''Jet'' = Inr (map (\<lambda>e. objects e ''Jet'') (events b))"
    by (simp add: getattr_def route_coll_def fs events_event_seeds_batch comp_def)
  have p50: "getitem1 ?tab 50 = Inr (?tab ! 50)"
    using getitem1_nat [of 50 ?tab] assms(1) by simp
  have ix: "nat (uint w mod int (length ?tab)) = unat w mod length ?tab" for w :: "64 word"
    by (simp add: nat_mod_distrib)
  have cs: "create_seed_vec xs 16 = Inr (map (mix 16) xs)" for xs
    using create_seed_vec_total [of 16 xs] by simp
  show ?thesis
    unfolding seed bind_Inr idx getitem_mod [OF ne] jets p50 snd_conv values_astype_u64_def
    by (simp add: jet_seed_input_eq comp_def cs unflatten_concat_map)
       (simp add: set_ak_field_def jet_seeds_batch_def fs events_event_seeds_batch map2_map_map
          comp_def jet_out_def Let_def jet_seeds_ev_def jet_raw_def ix map2_left_map)
qed

lemma jet_seeds_total:
  assumes "50 < length (primes self)" "float_free b \<or> events b = []" "coll_dt b ''Jet'' \<noteq> None"
  shows "deterministic_jet_seeds self b = Inr (jet_seeds_batch self b)"
proof -
  have "7 < length (primes self)" using assms(1) by linarith
  then have ev: "deterministic_event_seeds self b = Inr (event_seeds_batch self b)"
    using assms(2) by (rule event_seeds_total)
  show ?thesis
    unfolding deterministic_jet_seeds_def ev bind_Inr
    by (rule jet_part_total [OF assms(1,3)])
qed

lemma jet_seeds_no_jet:
  assumes "deterministic_event_seeds self b = Inr b1" "coll_dt b ''Jet'' = None"
  shows "deterministic_jet_seeds self b = Inl AttributeError"
proof -
  from assms(1) have len: "7 < length (primes self)" and b1: "b1 = event_seeds_batch self b"
    by (simp_all add: event_seeds_Inr_iff)
  have n: "length (primes self) \<noteq> 0" using len by linarith
  then have ne: "primes self \<noteq> []" by simp
  have seed: "getattr route_scalar b1 ''deterministic_seed''
      = Inr (UInt64, map (\<lambda>e. uint (event_seed self b e)) (events b))"
    by (simp add: b1 getattr_def route_scalar_def events_event_seeds_batch comp_def)
  have idx: "mod_scalar (UInt64, map (\<lambda>e. uint (event_seed self b e)) (events b)) (length (primes self))
      = map (\<lambda>e. uint (event_seed self b e) mod int (length (primes self))) (events b)"
    using n by (simp add: mod_scalar_def comp_def Let_def)
  have jets: "getattr route_coll b1 ''Jet'' = Inl AttributeError"
    by (simp add: b1 getattr_def route_coll_def assms(2))
  show ?thesis
    unfolding deterministic_jet_seeds_def assms(1) bind_Inr seed idx getitem_mod [OF ne] jets
    by simp
qed

lemma jet_seeds_short:
  assumes "deterministic_event_seeds self b = Inr b1" "coll_dt b ''Jet'' \<noteq> None"
    "\<not> 50 < length (primes self)"
  shows "deterministic_jet_seeds self b = Inl IndexError"
proof -
  from assms(1) have len: "7 < length (primes self)" and b1: "b1 = event_seeds_batch self b"
    by (simp_all add: event_seeds_Inr_iff)
  have n: "length (primes self) \<noteq> 0" using len by linarith
  then have ne: "primes self \<noteq> []" by simp
  have seed: "getattr route_scalar b1 ''deterministic_seed''
      = Inr (UInt64, map (\<lambda>e. uint (event_seed self b e)) (events b))"
    by (simp add: b1 getattr_def route_scalar_def events_event_seeds_batch comp_def)
  have idx: "mod_scalar (UInt64, map (\<lambda>e. uint (event_seed self b e)) (events b)) (length (primes self))
      = map (\<lambda>e. uint (event_seed self b e) mod int (length (primes self))) (events b)"
    using n by (simp add: mod_scalar_def comp_def Let_def)
  from assms(2) obtain fs where fs: "coll_dt b ''Jet'' = Some fs" by auto
  have jets: "getattr route_coll b1 ''Jet'' = Inr (map (\<lambda>e. objects e ''Jet'') (events b))"
    by (simp add: b1 getattr_def route_coll_def fs events_event_seeds_batch comp_def)
  have p50: "getitem1 (primes self) 50 = Inl IndexError"
    using getitem1_short [of 50 "primes self"] assms(3) by simp
  show ?thesis
    unfolding deterministic_jet_seeds_def assms(1) bind_Inr seed idx getitem_mod [OF ne] jets p50
    by simp
qed

lemma jet_seeds_Inr_iff:
  "deterministic_jet_seeds self b = Inr b' \<longleftrightarrow>
     50 < length (primes self) \<and> (float_free b \<or> events b = []) \<and> coll_dt b ''Jet'' \<noteq> None
     \<and> b' = jet_seeds_batch self b"
proof (cases "deterministic_event_seeds self b")
  case (Inl e)
  then have "deterministic_jet_seeds self b = Inl e"
    by (simp add: deterministic_jet_seeds_def)
  moreover from Inl have "\<not> (7 < length (primes self) \<and> (float_free b \<or> events b = []))"
    using event_seeds_total [of self b] by auto
  ultimately show ?thesis by auto
next
  case (Inr b1)
  then have ok: "7 < length (primes self)" "float_free b \<or> events b = []"
    by (simp_all add: event_seeds_Inr_iff)
  show ?thesis
  proof (cases "coll_dt b ''Jet'' = None")
    case True
    then show ?thesis using jet_seeds_no_jet [OF Inr] by simp
  next
    case False
    show ?thesis
    proof (cases "50 < length (primes self)")
      case True
      then show ?thesis using jet_seeds_total [OF True ok(2) False] False ok by auto
    next
      case no: False
      then show ?thesis using jet_seeds_short [OF Inr False no] by simp
    qed
  qed
qed

lemma scalars_count_ev:
  "scalars (count_ev cs e) f =
     (if f \<in> (\<lambda>c. ''n'' @ c) ` set cs
      then uint (word_of_int (int (length (objects e (tl f)))) :: 64 word)
      else scalars e f)"
proof (induction cs arbitrary: e)
  case Nil
  then show ?case by simp
next
  case (Cons c cs)
  show ?case
    unfolding count_ev_Cons Cons.IH by auto
qed

lemma more_count_ev [simp]: "event_rec.more (count_ev cs e) = event_rec.more e"
  by (induction cs arbitrary: e) (simp_all add: count_ev_Cons)

lemma more_event_out [simp]: "event_rec.more (event_out self b e) = event_rec.more e"
  by (simp add: event_out_def Let_def)

lemma scalars_event_out:
  "scalars (event_out self b e) f =
     (if f = ''deterministic_seed'' then uint (event_seed self b e)
      else if f \<in> (\<lambda>c. ''n'' @ c) ` set (present_collections self b)
      then uint (word_of_int (int (length (objects e (tl f)))) :: 64 word)
      else scalars e f)"
  by (simp add: event_out_def Let_def scalars_count_ev)

lemma global_ev_cong:
  assumes "sdt2 (snd itf) = sdt1 (snd itf)" "scalars e2 (snd itf) = scalars e1 (snd itf)"
  shows "global_ev tab sdt2 e2 itf = global_ev tab sdt1 e1 itf"
  by (rule ext) (simp add: global_ev_def assms split: option.splits)

lemma object_ev_cong:
  assumes "objects e2 = objects e1"
  shows "object_ev tab cdt e2 itf = object_ev tab cdt e1 itf"
  by (rule ext) (simp add: object_ev_def field_values_def assms split: option.splits)

lemma event_seed_cong:
  assumes "coll_dt b2 = coll_dt b1"
    and "scalar_dt b2 ''Pileup.nPU'' = scalar_dt b1 ''Pileup.nPU''"
    and "run e2 = run e1" "luminosityBlock e2 = luminosityBlock e1" "event e2 = event e1"
    and "objects e2 = objects e1"
    and "scalars e2 ''Pileup.nPU'' = scalars e1 ''Pileup.nPU''"
  shows "event_seed self b2 e2 = event_seed self b1 e1"
proof -
  let ?cs = "present_collections self b1"
  have cs: "present_collections self b2 = ?cs"
    by (simp add: present_collections_def assms(1))
  have ff: "flat_fields b2 = flat_fields b1"
    by (simp add: flat_fields_def apply_field_def route_scalar_def assms(2) split: option.splits)
  have gf: "global_fields self b2 = global_fields self b1"
    by (simp add: global_fields_def cs ff)
  have boot: "boot_ev (primes self) (count_ev ?cs e2) = boot_ev (primes self) (count_ev ?cs e1)"
    by (simp add: boot_ev_def assms)
  have g: "global_ev (primes self) (counted_dt ?cs (scalar_dt b2)) (count_ev ?cs e2) itf
         = global_ev (primes self) (counted_dt ?cs (scalar_dt b1)) (count_ev ?cs e1) itf"
    if "itf \<in> set (enumerate value_offset (global_fields self b1))" for itf
  proof (rule global_ev_cong)
    from that have "snd itf \<in> set (global_fields self b1)" by (rule in_set_enumerate_snd)
    then have f: "snd itf = ''Pileup.nPU'' \<or> snd itf \<in> (\<lambda>c. ''n'' @ c) ` set ?cs"
      by (auto simp: global_fields_def flat_fields_def split: if_splits)
    then show "counted_dt ?cs (scalar_dt b2) (snd itf) = counted_dt ?cs (scalar_dt b1) (snd itf)"
      by (auto simp: counted_dt_eq assms(2))
    from f show "scalars (count_ev ?cs e2) (snd itf) = scalars (count_ev ?cs e1) (snd itf)"
      by (auto simp: scalars_count_ev assms)
  qed
  have o: "object_ev (primes self) (coll_dt b1) (count_ev ?cs e2)
         = object_ev (primes self) (coll_dt b1) (count_ev ?cs e1)"
    by (rule ext, rule object_ev_cong) (simp add: assms)
  have "pre_seed_ev self b2 e2 = pre_seed_ev self b1 e1"
    unfolding pre_seed_ev_def Let_def cs gf assms(1) boot o
    by (rule arg_cong [where f = "fold _ _"], rule fold_cong) (use g in simp_all)
  then show ?thesis by (simp add: event_seed_def)
qed

lemma scalar_dt_event_seeds_batch:
  "scalar_dt (event_seeds_batch self b) f =
     (if f = ''deterministic_seed'' \<or> f \<in> (\<lambda>c. ''n'' @ c) ` set (present_collections self b)
      then Some UInt64 else scalar_dt b f)"
  by (simp add: event_seeds_batch_def counted_dt_eq)

lemma present_collections_cong:
  "coll_dt b2 = coll_dt b1 \<Longrightarrow> present_collections self b2 = present_collections self b1"
  by (simp add: present_collections_def)

lemma event_seed_again:
  "event_seed self (event_seeds_batch self b) (event_out self b e) = event_seed self b e"
  by (rule event_seed_cong) (auto simp: scalar_dt_event_seeds_batch scalars_event_out)

lemma event_out_again:
  "event_out self (event_seeds_batch self b) (event_out self b e) = event_out self b e"
proof (rule event_rec.equality)
  let ?b' = "event_seeds_batch self b"
  have cs: "present_collections self ?b' = present_collections self b"
    by (rule present_collections_cong) simp
  show "scalars (event_out self ?b' (event_out self b e)) = scalars (event_out self b e)"
    by (rule ext) (simp add: scalars_event_out cs event_seed_again)
qed simp_all

lemma event_seeds_batch_idem:
  "event_seeds_batch self (event_seeds_batch self b) = event_seeds_batch self b"
proof -
  let ?b' = "event_seeds_batch self b"
  have cs: "present_collections self ?b' = present_collections self b"
    by (rule present_collections_cong) simp
  have sd: "(counted_dt (present_collections self b) (scalar_dt ?b'))(''deterministic_seed'' \<mapsto> UInt64)
      = scalar_dt ?b'"
    by (rule ext) (simp add: counted_dt_eq scalar_dt_event_seeds_batch)
  have ev: "map (event_out self ?b') (events ?b') = events ?b'"
    by (simp add: events_event_seeds_batch event_out_again)
  have "event_seeds_batch self ?b' = ?b'\<lparr>scalar_dt := scalar_dt ?b', events := events ?b'\<rparr>"
    unfolding event_seeds_batch_def [of self ?b'] cs sd ev ..
  then show ?thesis by simp
qed

lemma float_free_cong: "coll_dt b2 = coll_dt b1 \<Longrightarrow> float_free b2 = float_free b1"
  by (simp add: float_free_def)

section \<open>The sample batches\<close>

lemma length_first_primes: "length first_primes = 100"
  by (simp add: first_primes_def)

lemma sample_producer_simps [simp]:
  "primes sample_producer = first_primes" "is_mc sample_producer = False"
  by (simp_all add: sample_producer_def)

lemma float_free_samples:
  "float_free bare_batch" "float_free empty_jet_batch" "float_free jet_batch"
  by (simp_all add: float_free_def object_fields_def field_dt_def bare_batch_def
      empty_jet_batch_def jet_batch_def)

lemma float_free_muon_batch: "float_free muon_batch"
  by (simp add: float_free_def object_fields_def field_dt_def muon_batch_def)

lemma float_free_two_event_batch: "float_free two_event_batch"
  by (simp add: float_free_def object_fields_def field_dt_def two_event_batch_def)

lemma prime_at_nth: "k < length tab \<Longrightarrow> prime_at tab k = tab ! k"
  by (simp add: prime_at_def)

lemma spec_jet_raw_eq: "50 < length tab \<Longrightarrow> spec_jet_raw tab s j = jet_raw tab s j"
  by (simp add: spec_jet_raw_def jet_raw_def prime_at_def)

lemma events_jet_seeds_batch: "events (jet_seeds_batch self b) = map (jet_out self b) (events b)"
  by (simp add: jet_seeds_batch_def)

lemma scalars_jet_out [simp]: "scalars (jet_out self b e) = scalars (event_out self b e)"
  by (simp add: jet_out_def Let_def)

lemma jets_jet_out:
  "objects (jet_out self b e) ''Jet'' =
     map (\<lambda>j. (objects e ''Jet'' ! j)(''deterministic_seed'' :=
            uint (mix 16 (jet_raw (primes self) (event_seed self b e) j))))
       [0..<length (objects e ''Jet'')]"
  by (rule nth_equalityI) (simp_all add: jet_out_def Let_def jet_seeds_ev_def)

lemma deterministic_seeds_eq: "deterministic_seeds self b = deterministic_jet_seeds self b"
proof (cases "deterministic_event_seeds self b")
  case (Inl err)
  then show ?thesis by (simp add: deterministic_seeds_def deterministic_jet_seeds_def)
next
  case (Inr b1)
  then have b1: "b1 = event_seeds_batch self b" and ok: "7 < length (primes self)"
    "float_free b \<or> events b = []"
    by (simp_all add: event_seeds_Inr_iff)
  have "float_free b1 \<or> events b1 = []"
    using ok(2) float_free_cong [of b1 b] by (auto simp: b1 events_event_seeds_batch)
  with ok(1) have "deterministic_event_seeds self b1 = Inr (event_seeds_batch self b1)"
    by (rule event_seeds_total)
  then have "deterministic_event_seeds self b1 = Inr b1"
    by (simp add: b1 event_seeds_batch_idem)
  then show ?thesis
    by (simp add: deterministic_seeds_def deterministic_jet_seeds_def Inr)
qed

lemma flat_fields_cong: "scalar_dt b2 = scalar_dt b1 \<Longrightarrow> flat_fields b2 = flat_fields b1"
  by (simp add: flat_fields_def apply_field_def route_scalar_def split: option.splits)

lemma event_out_batch_cong:
  assumes "scalar_dt b2 = scalar_dt b1" "coll_dt b2 = coll_dt b1"
  shows "event_out self b2 = event_out self b1"
  by (rule ext)
     (simp add: event_out_def event_seed_def pre_seed_ev_def global_fields_def
        flat_fields_cong [OF assms(1)] present_collections_cong [OF assms(2)] assms)

lemma event_seeds_batch_events:
  "event_seeds_batch self (b\<lparr>events := es\<rparr>)
   = (event_seeds_batch self b)\<lparr>events := map (event_out self b) es\<rparr>"
proof -
  have "event_out self (b\<lparr>events := es\<rparr>) = event_out self b"
    by (rule event_out_batch_cong) simp_all
  moreover have "present_collections self (b\<lparr>events := es\<rparr>) = present_collections self b"
    by (rule present_collections_cong) simp
  ultimately show ?thesis by (simp add: event_seeds_batch_def)
qed

lemma jet_out_batch_cong:
  assumes "scalar_dt b2 = scalar_dt b1" "coll_dt b2 = coll_dt b1"
  shows "jet_out self b2 = jet_out self b1"
  by (rule ext)
     (simp add: jet_out_def event_out_batch_cong [OF assms] event_seed_def pre_seed_ev_def
        global_fields_def flat_fields_cong [OF assms(1)] present_collections_cong [OF assms(2)]
        assms)

lemma jet_seeds_batch_events:
  "jet_seeds_batch self (b\<lparr>events := es\<rparr>)
   = (jet_seeds_batch self b)\<lparr>events := map (jet_out self b) es\<rparr>"
proof -
  have "jet_out self (b\<lparr>events := es\<rparr>) = jet_out self b"
    by (rule jet_out_batch_cong) simp_all
  then show ?thesis by (simp add: jet_seeds_batch_def event_seeds_batch_events)
qed

lemma float_free_events [simp]: "float_free (b\<lparr>events := es\<rparr>) = float_free b"
  by (simp add: float_free_def)

lemma event_seeds_rearranged:
  assumes "deterministic_event_seeds self b = Inr b'" "events b = [] \<Longrightarrow> es = []"
  shows "deterministic_event_seeds self (b\<lparr>events := es\<rparr>)
         = Inr (b'\<lparr>events := map (event_out self b) es\<rparr>)"
proof -
  from assms(1) have ok: "7 < length (primes self)" "float_free b \<or> events b = []"
    and b': "b' = event_seeds_batch self b"
    by (simp_all add: event_seeds_Inr_iff)
  from ok(2) assms(2) have "float_free (b\<lparr>events := es\<rparr>) \<or> events (b\<lparr>events := es\<rparr>) = []"
    by auto
  with ok(1) show ?thesis
    by (simp add: event_seeds_total event_seeds_batch_events b')
qed

lemma jet_seeds_rearranged:
  assumes "deterministic_jet_seeds self b = Inr b'" "events b = [] \<Longrightarrow> es = []"
  shows "deterministic_jet_seeds self (b\<lparr>events := es\<rparr>)
         = Inr (b'\<lparr>events := map (jet_out self b) es\<rparr>)"
proof -
  from assms(1) have ok: "50 < length (primes self)" "float_free b \<or> events b = []"
    "coll_dt b ''Jet'' \<noteq> None" and b': "b' = jet_seeds_batch self b"
    by (simp_all add: jet_seeds_Inr_iff)
  from ok(2) assms(2) have "float_free (b\<lparr>events := es\<rparr>) \<or> events (b\<lparr>events := es\<rparr>) = []"
    by auto
  with ok(1,3) show ?thesis
    by (simp add: jet_seeds_total jet_seeds_batch_events b')
qed

lemma map_nth_map: "set p \<subseteq> {..<length xs} \<Longrightarrow> map (\<lambda>i. map f xs ! i) p = map f (map (\<lambda>i. xs ! i) p)"
  by (auto simp: subset_iff)

lemma perm_indices: "mset p = mset [0..<n] \<Longrightarrow> set p \<subseteq> {..<n}"
  by (metis atLeast_upt mset_eq_setD set_eq_subset)

lemma list_all2_maps: "(\<And>x. x \<in> set xs \<Longrightarrow> P (f x) (g x)) \<Longrightarrow> list_all2 P (map f xs) (map g xs)"
  by (simp add: list_all2_conv_all_nth)

lemma scalars_added_event_out: "scalars_added (added_fields self b) e (event_out self b e)"
  by (simp add: scalars_added_def added_fields_def scalars_event_out)

lemma jet_field_added_jet_out:
  "jet_field_added ''deterministic_seed'' (event_out self b e) (jet_out self b e)"
proof -
  have "list_all2 (\<lambda>ob ob2. \<forall>f. f \<noteq> ''deterministic_seed'' \<longrightarrow> ob2 f = ob f)
          (objects (event_out self b e) ''Jet'') (objects (jet_out self b e) ''Jet'')"
    by (simp add: list_all2_conv_all_nth jets_jet_out)
  moreover have "objects (jet_out self b e) c = objects (event_out self b e) c" if "c \<noteq> ''Jet''" for c
    using that by (simp add: jet_out_def Let_def)
  moreover have "run (jet_out self b e) = run e" "luminosityBlock (jet_out self b e) = luminosityBlock e"
    "event (jet_out self b e) = event e"
    by (simp_all add: jet_out_def Let_def)
  ultimately show ?thesis
    by (simp add: jet_field_added_def)
qed

lemma map2_map_right: "map2 f xs (map g ys) = map2 (\<lambda>x y. f x (g y)) xs ys"
  by (simp add: zip_map2 case_prod_beta comp_def)

lemma vmul_maps: "vmul (map p xs) (values_astype_u64 (map v xs)) = map (\<lambda>x. p x * word_of_int (v x)) xs"
  by (simp add: vmul_def values_astype_u64_def map2_map_map comp_def)

lemma vadd_map: "vadd seed (map h xs) = map2 (\<lambda>s x. s + h x) seed xs"
  by (simp add: vadd_def map2_map_right)

lemma global_step_map2:
  assumes "primes self \<noteq> []" "scalar_dt b (snd itf) = Some dt"
  shows "global_step self b itf seed
         = Inr (map2 (\<lambda>s e. s + global_term (primes self) dt (fst itf) (scalars e (snd itf)))
                  seed (events b))"
proof -
  have idx: "add_scalar (add_scalar (dt, map (\<lambda>e. scalars e (snd itf)) (events b)) (int (fst itf))) prime_offset
        = (dt, map (\<lambda>e. wrap dt (wrap dt (scalars e (snd itf) + int (fst itf)) + 15)) (events b))"
    by (simp add: add_scalar_def prime_offset_def comp_def)
  have vals: "snd (add_scalar (dt, map (\<lambda>e. scalars e (snd itf)) (events b)) (int (fst itf)))
        = map (\<lambda>e. wrap dt (scalars e (snd itf) + int (fst itf))) (events b)"
    by (simp add: add_scalar_def comp_def)
  show ?thesis
    unfolding global_step_def route_scalar_def assms(2) option.case bind_Inr Let_def idx
      getitem_index [OF assms(1)] vals vmul_maps vadd_map
    by (simp add: global_term_def Let_def)
qed

lemma object_step_map2:
  assumes "primes self \<noteq> []" "field_dt (coll_dt b) (snd itf) = Some dt" "dt \<noteq> UInt64"
  shows "object_step self b itf seed
         = Inr (map2 (\<lambda>s e. s + object_term (primes self) dt (fst itf) (field_values e (snd itf)))
                  seed (events b))"
proof -
  have n: "length (primes self) \<noteq> 0" using assms(1) by simp
  have idx: "mod_scalar (add_scalar (Int64, map h (events b)) prime_offset) (length (primes self))
        = map (\<lambda>e. wrap Int64 (h e + 15) mod int (length (primes self))) (events b)" for h
    using n by (simp add: mod_scalar_def add_scalar_def prime_offset_def comp_def Let_def)
  show ?thesis
    unfolding object_step_def apply_field_def route_field_eq assms(2) option.case sum.case
      hashed_eq [OF assms(3)] idx getitem_mod [OF assms(1)] bind_Inr snd_conv vmul_maps vadd_map
    by (simp add: object_term_def Let_def)
qed

lemma object_step_absent:
  "field_dt (coll_dt b) (snd itf) = None \<Longrightarrow> object_step self b itf seed = Inr seed"
  by (simp add: object_step_def apply_field_def route_field_eq)

lemma object_pass_filter:
  "foldM (object_step self b) ifs seed
   = foldM (object_step self b) (filter (\<lambda>itf. field_dt (coll_dt b) (snd itf) \<noteq> None) ifs) seed"
  by (induction ifs arbitrary: seed) (auto simp: object_step_absent split: sum.splits)

lemma count_collections_snd:
  "count_collections (collections self) (flat_fields b, b)
   = (global_fields self b, count_batch (present_collections self b) b)"
  by (simp add: count_collections_eq global_fields_def present_collections_def)

lemma collections_eq:
  "collections self =
     [''Jet'', ''FatJet'', ''SubJet'', ''Photon'', ''Muon'', ''Electron'', ''Tau'', ''SV'']
       @ (if is_mc self then [''GenJet'', ''GenPart''] else [])"
  by (simp add: collections_def)

lemma wrap_UInt64: "wrap UInt64 x = uint (word_of_int x :: 64 word)"
  by (simp add: wrap_def uint_word_of_int)

lemma wrap_Int64: "wrap Int64 x = sint (word_of_int x :: 64 word)"
  by (simp add: wrap_def sint_sbintrunc' signed_take_bit_eq_take_bit_shift take_bit_eq_mod)

lemma wrap_bounds: "- (2 ^ 63) \<le> wrap dt x \<and> wrap dt x < 2 ^ 64"
proof (cases "is_signed dt")
  case True
  define n where "n = bits dt"
  define m where "m = (x + 2 ^ (n - 1)) mod 2 ^ n"
  have "n \<le> 64" "n - 1 \<le> 63" unfolding n_def by (cases dt; simp)+
  then have p: "(2::int) ^ n \<le> 2 ^ 64" "(2::int) ^ (n - 1) \<le> 2 ^ 63"
    by (simp_all only: power_increasing_iff one_less_numeral_iff semiring_norm)
  have q: "(0::int) \<le> 2 ^ (n - 1)" by simp
  have "0 \<le> m" "m < 2 ^ n" unfolding m_def by simp_all
  with p q have "- (2 ^ 63) \<le> m - 2 ^ (n - 1) \<and> m - 2 ^ (n - 1) < 2 ^ 64"
    by linarith
  then show ?thesis using True by (simp only: wrap_def n_def m_def if_True)
next
  case False
  define n where "n = bits dt"
  have "n \<le> 64" unfolding n_def by (cases dt) simp_all
  then have p: "(2::int) ^ n \<le> 2 ^ 64"
    by (simp only: power_increasing_iff one_less_numeral_iff semiring_norm)
  have "0 \<le> x mod 2 ^ n" "x mod 2 ^ n < 2 ^ n"
    by simp_all
  moreover have "- (2 ^ 63) \<le> (0::int)" by simp
  ultimately have "- (2 ^ 63) \<le> x mod 2 ^ n \<and> x mod 2 ^ n < 2 ^ 64"
    using p by linarith
  then show ?thesis using False by (simp only: wrap_def n_def if_False)
qed

lemma prime_at_mod: "prime_at tab (k mod length tab) = tab ! (k mod length tab)"
  by (simp add: prime_at_def)

lemma global_term_count:
  assumes "tab \<noteq> []"
  shows "s + global_term tab UInt64 i (uint (w :: 64 word)) = spec_global_update tab i w s"
proof -
  have n: "length tab \<noteq> 0" using assms by simp
  have a: "wrap UInt64 (uint w + int i) = uint (w + of_nat i)"
    by (simp add: wrap_UInt64)
  have b: "wrap UInt64 (uint (w + of_nat i) + 15) = uint (w + of_nat i + 15)"
    by (simp add: wrap_UInt64)
  have c: "nat (uint x mod int n) = unat x mod n" for x :: "64 word" and n
    by (simp add: nat_mod_distrib)
  have t: "table_index UInt64 (length tab) x = nat (x mod int (length tab))" for x
    using n by (simp add: table_index_64)
  show ?thesis
    by (simp add: global_term_def spec_global_update_def Let_def a b c t prime_at_mod)
qed

lemma uint_word_of_int_small:
  "0 \<le> y \<Longrightarrow> y < 2 ^ 64 \<Longrightarrow> uint (word_of_int y :: 64 word) = y"
  by (simp add: uint_word_of_int_eq take_bit_int_eq_self)

lemma table_index_fits:
  assumes "n \<noteq> 0" "representable dt (int n)"
  shows "table_index dt n x = nat (x mod int n)"
  using assms by (intro table_index_pos) (simp_all add: len_as_def representable_def)

lemma global_term_in_range:
  assumes "tab \<noteq> []" "representable dt (int (length tab))"
    and "representable dt (v + int i)" "representable dt (v + int i + 15)" "0 \<le> v + int i + 15"
  shows "s + global_term tab dt i v = spec_global_update tab i (word_of_int v) s"
proof -
  define y where "y = v + int i + 15"
  have n: "length tab \<noteq> 0" using assms(1) by simp
  have a: "wrap dt (v + int i) = v + int i" "wrap dt y = y"
    using assms(3,4) by (simp_all add: representable_def y_def)
  have y0: "0 \<le> y" using assms(5) by (simp add: y_def)
  have "y < 2 ^ 64" using wrap_bounds [of dt y] a(2) by simp
  with y0 have "uint (word_of_int y :: 64 word) = y"
    by (rule uint_word_of_int_small)
  then have u: "unat (word_of_int y :: 64 word) = nat y"
    by (simp add: unat_eq_nat_uint)
  have w: "(word_of_int v + of_nat i + 15 :: 64 word) = word_of_int y"
    by (simp add: y_def)
  have m: "nat (y mod int (length tab)) = nat y mod length tab"
    using y0 by (simp add: nat_mod_distrib)
  have "global_term tab dt i v
      = tab ! nat (y mod int (length tab)) * word_of_int (v + int i)"
    by (simp add: global_term_def Let_def a(1) a(2) [unfolded y_def] y_def
        table_index_fits [OF n assms(2)])
  also have "\<dots> = prime_at tab (unat (word_of_int v + of_nat i + 15 :: 64 word) mod length tab)
      * (word_of_int v + of_nat i)"
    unfolding w u m prime_at_mod by simp
  finally show ?thesis
    by (simp add: spec_global_update_def Let_def)
qed

text \<open>A table of 200 entries and a signed 8-bit value of 120 at the position 3: the sum
  138 is stored as -118, the length as -56, and the remainder -6 selects the entry 194.\<close>

lemma global_term_narrow:
  assumes "length tab = 200"
  shows "global_term tab Int8 3 120 = tab ! 194 * 123"
  using assms by (simp add: global_term_def table_index_def len_as_def wrap_def Let_def)

lemma word_of_wrap_Int64: "(word_of_int (wrap Int64 x) :: 64 word) = word_of_int x"
  by (simp add: wrap_Int64)

lemma sint_small:
  assumes "uint (w :: 64 word) < 2 ^ 63"
  shows "sint w = uint w"
proof -
  have "- (2 ^ 63) \<le> uint w" by (rule order_trans [of _ 0]) simp_all
  with assms have "signed_take_bit 63 (uint w) = uint w"
    by (intro signed_take_bit_int_eq_self)
  then show ?thesis by (simp add: sint_uint)
qed

lemma index_small:
  assumes "uint (word_of_int h + 15 :: 64 word) < 2 ^ 63"
  shows "nat (wrap Int64 (h + 15) mod int n) = unat (word_of_int h + 15 :: 64 word) mod n"
proof -
  define w :: "64 word" where "w = word_of_int h + 15"
  have "wrap Int64 (h + 15) = sint w" by (simp add: wrap_Int64 w_def)
  also have "\<dots> = uint w" using assms unfolding w_def [symmetric] by (rule sint_small)
  finally have "nat (wrap Int64 (h + 15) mod int n) = nat (uint w mod int n)" by simp
  also have "\<dots> = unat w mod n" by (simp add: nat_mod_distrib)
  finally show ?thesis unfolding w_def .
qed

lemma word_of_int_sum_list: "(word_of_int (sum_list xs) :: 64 word) = sum_list (map word_of_int xs)"
  by (induction xs) simp_all

lemma hashed_ev_Nil: "hashed_ev dt i [] = 0"
  by (simp add: hashed_ev_def wrap_def)

lemma map2_maps: "map2 f (map a xs) (map b ys) = map (\<lambda>p. f (a (fst p)) (b (snd p))) (zip xs ys)"
  by (simp add: zip_map_map split_beta)

lemma upt_from_1: "map of_nat [1..<n + 1] = map (\<lambda>j. of_nat j + (1 :: 64 word)) [0..<n]"
proof -
  have "[1..<n + 1] = map Suc [0..<n]"
    by (simp add: map_Suc_upt)
  then show ?thesis by (simp add: comp_def)
qed

lemma hashed_ev_word:
  assumes "\<And>v. v \<in> set vs \<Longrightarrow>
      representable dt (v + int i) \<and> representable dt ((v + int i) ^ 2)"
  shows "(word_of_int (hashed_ev dt i vs) :: 64 word) = spec_hashed i (map word_of_int vs)"
proof -
  let ?n = "length vs"
  let ?zs = "zip vs [0..<?n]"
  let ?a = "\<lambda>p. (word_of_int (fst p) + of_nat i) * (of_nat (snd p) + (1 :: 64 word))"
  let ?b = "\<lambda>p. (word_of_int (fst p) + of_nat i) ^ 2 * (of_nat (snd p) + (1 :: 64 word))"
  have r1: "wrap dt (v + int i) = v + int i"
    and r2: "wrap dt ((v + int i) * (v + int i)) = (v + int i) * (v + int i)"
    if "v \<in> set vs" for v
    using assms [OF that] by (simp_all add: representable_def power2_eq_square)
  have e1: "(word_of_int (wrap Int64 (wrap dt (fst p + int i) * wrap Int64 (int (snd p) + 1))) :: 64 word)
      = ?a p" if "p \<in> set ?zs" for p
  proof -
    from that have "fst p \<in> set vs" by (metis prod.collapse set_zip_leftD)
    then show ?thesis by (simp add: word_of_wrap_Int64 r1)
  qed
  have e2: "(word_of_int (wrap Int64 (wrap dt (wrap dt (fst p + int i) * wrap dt (fst p + int i))
                * wrap Int64 (int (snd p) + 1))) :: 64 word)
      = ?b p" if "p \<in> set ?zs" for p
  proof -
    from that have "fst p \<in> set vs" by (metis prod.collapse set_zip_leftD)
    then show ?thesis by (simp add: word_of_wrap_Int64 r1 r2 power2_eq_square)
  qed
  have s1: "(word_of_int (sum_list (map2 (\<lambda>v l. wrap Int64 (v * l))
               (map (\<lambda>v. wrap dt (v + int i)) vs)
               (map (\<lambda>j. wrap Int64 (int j + 1)) [0..<?n]))) :: 64 word)
      = sum_list (map ?a ?zs)"
    unfolding map2_maps word_of_int_sum_list map_map comp_def
    by (rule arg_cong [where f = sum_list], rule map_cong [OF refl]) (rule e1)
  have s2: "(word_of_int (sum_list (map2 (\<lambda>v l. wrap Int64 (wrap dt (v * v) * l))
               (map (\<lambda>v. wrap dt (v + int i)) vs)
               (map (\<lambda>j. wrap Int64 (int j + 1)) [0..<?n]))) :: 64 word)
      = sum_list (map ?b ?zs)"
    unfolding map2_maps word_of_int_sum_list map_map comp_def
    by (rule arg_cong [where f = sum_list], rule map_cong [OF refl]) (rule e2)
  have lhs: "(word_of_int (hashed_ev dt i vs) :: 64 word)
      = of_nat ?n + sum_list (map ?a ?zs) + sum_list (map ?b ?zs)"
    unfolding hashed_ev_def Let_def word_of_wrap_Int64
    by (simp only: of_int_add word_of_wrap_Int64 s1 s2 of_int_of_nat_eq)
  have rhs: "spec_hashed i (map word_of_int vs)
      = of_nat ?n + sum_list (map ?a ?zs) + sum_list (map ?b ?zs)"
  proof -
    have v: "map (\<lambda>v. v + of_nat i) (map word_of_int vs)
        = map (\<lambda>v. (word_of_int v :: 64 word) + of_nat i) vs"
      by (simp add: comp_def)
    show ?thesis
      unfolding spec_hashed_def Let_def length_map upt_from_1 v map2_maps ..
  qed
  show ?thesis unfolding lhs rhs ..
qed

section \<open>Events without objects\<close>

text \<open>An event with zero objects in every collection: each counted collection adds the
  term of the count 0 at its position, the object fields add nothing.\<close>

lemma enumerate_map:
  "enumerate n (map f xs) = map (\<lambda>p. (fst p, f (snd p))) (enumerate n xs)"
  by (induction xs arbitrary: n) simp_all

lemma global_zero_step:
  assumes "c \<in> set cs" "objects e c = []" "tab \<noteq> []"
  shows "global_ev tab (counted_dt cs sdt) (count_ev cs e) (i, ''n'' @ c) s
         = spec_global_update tab i 0 s"
proof -
  have m: "''n'' @ c \<in> (\<lambda>c. ''n'' @ c) ` set cs"
    using assms(1) by simp
  have v: "scalars (count_ev cs e) (''n'' @ c) = 0"
    using m assms(2) by (simp add: scalars_count_ev)
  have d: "counted_dt cs sdt (''n'' @ c) = Some UInt64"
    using m by (simp add: counted_dt_eq)
  have t: "s + global_term tab UInt64 i 0 = spec_global_update tab i 0 s"
    using global_term_count [OF assms(3), of s i 0] by simp
  show ?thesis
    using d v t by (simp add: global_ev_def)
qed

lemma global_zero_pass:
  assumes "\<forall>c. objects e c = []" "tab \<noteq> []"
  shows "fold (global_ev tab (counted_dt cs sdt) (count_ev cs e))
           (enumerate n (map (\<lambda>c. ''n'' @ c) cs)) s
         = fold (\<lambda>ic. spec_global_update tab (fst ic) 0) (enumerate n cs) s"
proof -
  have "fold (global_ev tab (counted_dt cs sdt) (count_ev cs e))
           (enumerate n (map (\<lambda>c. ''n'' @ c) cs)) s
      = fold (\<lambda>p. global_ev tab (counted_dt cs sdt) (count_ev cs e) (fst p, ''n'' @ snd p))
          (enumerate n cs) s"
    by (simp add: enumerate_map fold_map comp_def)
  also have "\<dots> = fold (\<lambda>ic. spec_global_update tab (fst ic) 0) (enumerate n cs) s"
  proof (rule fold_cong [OF refl refl])
    fix p assume "p \<in> set (enumerate n cs)"
    then have c: "snd p \<in> set cs" by (rule in_set_enumerate_snd)
    have z: "objects e (snd p) = []" using assms by simp
    show "global_ev tab (counted_dt cs sdt) (count_ev cs e) (fst p, ''n'' @ snd p)
        = (\<lambda>ic. spec_global_update tab (fst ic) 0) p"
      by (rule ext) (rule global_zero_step [OF c z assms(2)])
  qed
  finally show ?thesis .
qed

lemma object_zero_pass:
  assumes "\<forall>c. objects e c = []"
  shows "fold (object_ev tab cdt e) ifs s = s"
proof -
  have "object_ev tab cdt e itf s = s" for itf s
    using assms
    by (simp add: object_ev_def object_term_def hashed_ev_Nil field_values_def
        split: option.splits)
  then show ?thesis by (induction ifs) simp_all
qed

lemma zero_objects_pre_seed:
  assumes "scalar_dt b ''Pileup.nPU'' = None" "\<forall>c. objects e c = []" "primes self \<noteq> []"
  shows "pre_seed_ev self b e
         = fold (\<lambda>ic. spec_global_update (primes self) (fst ic) 0)
             (enumerate value_offset (present_collections self b)) (boot_ev (primes self) e)"
proof -
  have ff: "flat_fields b = []"
    using assms(1) by (simp add: flat_fields_def apply_field_def route_scalar_def)
  have z: "\<forall>c. objects (count_ev (present_collections self b) e) c = []"
    using assms(2) by simp
  show ?thesis
    unfolding pre_seed_ev_def Let_def object_zero_pass [OF z] global_fields_def ff append_Nil
      global_zero_pass [OF assms(2,3)] boot_ev_count ..
qed

lemma no_collections_float_free:
  assumes "present_collections self b = []"
  shows "float_free b"
proof -
  have "coll_dt b c = None" if "c \<in> set (collections self)" for c
    using assms that by (auto simp: present_collections_def filter_empty_conv)
  then have "coll_dt b ''Electron'' = None" "coll_dt b ''Tau'' = None"
    "coll_dt b ''Muon'' = None" "coll_dt b ''Jet'' = None"
    by (simp_all add: collections_eq)
  then show ?thesis
    by (simp add: float_free_def object_fields_def field_dt_def)
qed

lemma unit_boot_ev:
  assumes "7 < length tab" "run e = 1" "luminosityBlock e = 1" "event e = 1"
  shows "boot_ev tab e = mix 14 (prime_at tab 7 + prime_at tab 5 + prime_at tab 3)"
  using assms by (simp add: boot_ev_def prime_at_def)

text \<open>Three digests, and the seeds they give.\<close>

lemma digest_39:
  "hexdigest (sha256 (utf8 ''39''))
   = ''0b918943df0962bc7a1824c0555a389347b4febdc7cf9d1254406d80ce44e3f9''"
  by code_simp

lemma digest_bare:
  "hexdigest (sha256 (utf8 ''44822987035694596''))
   = ''bb415c04c8e989af58289a697bd2601a522b63483a2a80bf1dc8db87e9f0d85b''"
  by code_simp

lemma digest_counted:
  "hexdigest (sha256 (utf8 ''44822987035694797''))
   = ''da1c08a057d54f8423352e61d341ea05c856afb860da7f7988191591c83aa1fc''"
  by code_simp

lemma mix_39: "mix 14 39 = 44822987035694596"
proof -
  have "decimal (unat (39 :: 64 word)) = ''39''"
    by (simp add: decimal.simps digit_char_def)
  then show ?thesis
    by (simp add: mix_def digest_39 hex_value_def hexdigit_def hexval_def)
qed

lemma mix_bare: "mix 16 44822987035694596 = 13082129665886096593"
proof -
  have "decimal (unat (44822987035694596 :: 64 word)) = ''44822987035694596''"
    by (simp add: decimal.simps digit_char_def)
  then show ?thesis
    by (simp add: mix_def digest_bare hex_value_def hexdigit_def hexval_def)
qed

lemma mix_counted: "mix 16 44822987035694797 = 14923420137361084808"
proof -
  have "decimal (unat (44822987035694797 :: 64 word)) = ''44822987035694797''"
    by (simp add: decimal.simps digit_char_def)
  then show ?thesis
    by (simp add: mix_def digest_counted hex_value_def hexdigit_def hexval_def)
qed

text \<open>
  Claim C2. For every non-negative integer value and every number of hex characters, the
  seed function returns what the specification's digest mixer describes: the decimal text
  of the value is hashed with SHA-256, the digest is rendered in hexadecimal, its last
  \<open>hex_chars\<close> characters are taken in reverse order and parsed in base 16. Both sides
  are functions of the value and of \<open>hex_chars\<close> alone.
\<close>

theorem create_seed_is_digest_to_u64:
  "create_seed (int v) (int hex_chars) = digest_to_u64 v hex_chars"
  by (simp add: create_seed_def digest_to_u64_def str_def slice_down_take rev_last_chars)

text \<open>
  Claim C1, as the code has it. For a batch of a single event with
  \<^verbatim>\<open>run = luminosityBlock = event = 1\<close>, without \<^verbatim>\<open>Pileup.nPU\<close> and with zero objects in
  every collection, the event seed producer returns, and the seed it stores is the last
  digest, of 16 hex characters, of the digest of 14 hex characters of \<open>P[7] + P[5] + P[3]\<close>
  to which every collection that the batch has, at its position \<open>i\<close> among them from 3,
  has added \<open>prime_at((i + 15) mod table_len) * i\<close> for its count 0. The object fields
  add nothing. So the seed is
  \<open>digest_to_u64(digest_to_u64(P[7] + P[5] + P[3], 14), 16) mod 2^64\<close> where the batch
  has none of the collections.
\<close>

theorem bare_event_seed:
  assumes "7 < length (primes self)"
    and "events b = [e]"
    and "run e = 1" "luminosityBlock e = 1" "event e = 1"
    and "scalar_dt b ''Pileup.nPU'' = None"
    and "\<forall>c. objects e c = []"
  shows "(float_free b \<longrightarrow>
            deterministic_event_seeds self b = Inr (event_seeds_batch self b)
          \<and> map (\<lambda>e. scalars e ''deterministic_seed'') (events (event_seeds_batch self b))
            = [uint (mix 16 (fold (\<lambda>ic. spec_global_update (primes self) (fst ic) 0)
                 (enumerate value_offset (present_collections self b))
                 (mix 14 (prime_at (primes self) 7 + prime_at (primes self) 5
                          + prime_at (primes self) 3))))])
       \<and> (present_collections self b = [] \<longrightarrow>
            deterministic_event_seeds self b = Inr (event_seeds_batch self b)
          \<and> bind (digest_mod (unat (prime_at (primes self) 7 + prime_at (primes self) 5
                                      + prime_at (primes self) 3)) 14)
              (\<lambda>s. digest_mod (unat s) 16)
            = Inr (mix 16 (mix 14 (prime_at (primes self) 7 + prime_at (primes self) 5
                                   + prime_at (primes self) 3)))
          \<and> map (\<lambda>e. scalars e ''deterministic_seed'') (events (event_seeds_batch self b))
            = [uint (mix 16 (mix 14 (prime_at (primes self) 7 + prime_at (primes self) 5
                                     + prime_at (primes self) 3)))])"
proof -
  let ?p = "prime_at (primes self) 7 + prime_at (primes self) 5 + prime_at (primes self) 3"
  have ne: "primes self \<noteq> []"
    using assms(1) by auto
  have s: "event_seed self b e
      = mix 16 (fold (\<lambda>ic. spec_global_update (primes self) (fst ic) 0)
                 (enumerate value_offset (present_collections self b)) (mix 14 ?p))"
    unfolding event_seed_def zero_objects_pre_seed [OF assms(6,7) ne]
      unit_boot_ev [OF assms(1,3,4,5)] ..
  have ev: "map (\<lambda>e. scalars e ''deterministic_seed'') (events (event_seeds_batch self b))
      = [uint (event_seed self b e)]"
    by (simp add: events_event_seeds_batch assms(2))
  have a: "deterministic_event_seeds self b = Inr (event_seeds_batch self b)
          \<and> map (\<lambda>e. scalars e ''deterministic_seed'') (events (event_seeds_batch self b))
            = [uint (mix 16 (fold (\<lambda>ic. spec_global_update (primes self) (fst ic) 0)
                 (enumerate value_offset (present_collections self b)) (mix 14 ?p)))]"
    if "float_free b"
    using that ev by (simp add: event_seeds_total [OF assms(1)] s)
  have "deterministic_event_seeds self b = Inr (event_seeds_batch self b)
          \<and> bind (digest_mod (unat ?p) 14) (\<lambda>s. digest_mod (unat s) 16)
            = Inr (mix 16 (mix 14 ?p))
          \<and> map (\<lambda>e. scalars e ''deterministic_seed'') (events (event_seeds_batch self b))
            = [uint (mix 16 (mix 14 ?p))]"
    if n: "present_collections self b = []"
  proof -
    have d: "bind (digest_mod (unat ?p) 14) (\<lambda>s. digest_mod (unat s) 16)
        = Inr (mix 16 (mix 14 ?p))"
      by (simp add: digest_mod_mix)
    from a [OF no_collections_float_free [OF n]] d show ?thesis
      by (simp add: n)
  qed
  with a show ?thesis by blast
qed

theorem bare_event_seed_witness:
  "7 < length first_primes
   \<and> events bare_batch = [plain_event]
   \<and> run plain_event = 1 \<and> luminosityBlock plain_event = 1 \<and> event plain_event = 1
   \<and> scalar_dt bare_batch ''Pileup.nPU'' = None
   \<and> objects plain_event = (\<lambda>c. [])
   \<and> present_collections sample_producer bare_batch = []
   \<and> deterministic_event_seeds sample_producer bare_batch
       = Inr (event_seeds_batch sample_producer bare_batch)
   \<and> bind (digest_mod 39 14) (\<lambda>s. digest_mod (unat s) 16) = Inr (mix 16 (mix 14 39))
   \<and> map (\<lambda>e. scalars e ''deterministic_seed'')
       (events (event_seeds_batch sample_producer bare_batch))
     = [uint (mix 16 (mix 14 39))]"
proof -
  have l: "7 < length (primes sample_producer)"
    by (simp add: length_first_primes)
  have ev: "events bare_batch = [plain_event]"
    by (simp add: bare_batch_def)
  have id: "run plain_event = 1" "luminosityBlock plain_event = 1" "event plain_event = 1"
    by (simp_all add: plain_event_def)
  have np: "scalar_dt bare_batch ''Pileup.nPU'' = None"
    by (simp add: bare_batch_def)
  have ob: "\<forall>c. objects plain_event c = []"
    by (simp add: plain_event_def)
  have pc: "present_collections sample_producer bare_batch = []"
    by (simp add: present_collections_def bare_batch_def)
  have p: "prime_at first_primes 7 + prime_at first_primes 5 + prime_at first_primes 3 = 39"
    by (simp add: prime_at_def first_primes_def)
  have u: "unat (39 :: 64 word) = 39"
    by simp
  from bare_event_seed [OF l ev id np ob] pc
  have "deterministic_event_seeds sample_producer bare_batch
       = Inr (event_seeds_batch sample_producer bare_batch)
   \<and> bind (digest_mod (unat (prime_at (primes sample_producer) 7
               + prime_at (primes sample_producer) 5 + prime_at (primes sample_producer) 3)) 14)
         (\<lambda>s. digest_mod (unat s) 16)
       = Inr (mix 16 (mix 14 (prime_at (primes sample_producer) 7
               + prime_at (primes sample_producer) 5 + prime_at (primes sample_producer) 3)))
   \<and> map (\<lambda>e. scalars e ''deterministic_seed'')
       (events (event_seeds_batch sample_producer bare_batch))
     = [uint (mix 16 (mix 14 (prime_at (primes sample_producer) 7
               + prime_at (primes sample_producer) 5 + prime_at (primes sample_producer) 3)))]"
    by blast
  then have "deterministic_event_seeds sample_producer bare_batch
       = Inr (event_seeds_batch sample_producer bare_batch)
   \<and> bind (digest_mod 39 14) (\<lambda>s. digest_mod (unat s) 16) = Inr (mix 16 (mix 14 39))
   \<and> map (\<lambda>e. scalars e ''deterministic_seed'')
       (events (event_seeds_batch sample_producer bare_batch))
     = [uint (mix 16 (mix 14 39))]"
    unfolding sample_producer_simps p u .
  moreover have "objects plain_event = (\<lambda>c. [])"
    by (simp add: plain_event_def)
  ultimately show ?thesis
    using l ev id np pc by (simp add: length_first_primes)
qed

text \<open>The claim as stated fails for a batch that has a collection. In the batch with the
  collection \<^verbatim>\<open>Jet\<close> and the same event, which has no jets, the count \<^verbatim>\<open>nJet = 0\<close> is
  the global field at the position 3 and adds \<open>prime[18] * 3 = 201\<close> to the first digest
  44822987035694596; the stored seed is the digest of 44822987035694797, not the digest
  of the first digest.\<close>

theorem empty_collection_counterexample:
  "events empty_jet_batch = [plain_event]
   \<and> scalar_dt empty_jet_batch ''Pileup.nPU'' = None
   \<and> objects plain_event = (\<lambda>c. [])
   \<and> map_sum id (\<lambda>b. map (\<lambda>e. scalars e ''deterministic_seed'') (events b))
       (deterministic_event_seeds sample_producer empty_jet_batch)
     = Inr [14923420137361084808]
   \<and> bind (digest_mod (unat (prime_at first_primes 7 + prime_at first_primes 5
                              + prime_at first_primes 3)) 14)
       (\<lambda>s. digest_mod (unat s) 16)
     = Inr 13082129665886096593
   \<and> (14923420137361084808 :: int) \<noteq> uint (13082129665886096593 :: 64 word)"
proof -
  have l: "7 < length (primes sample_producer)"
    by (simp add: length_first_primes)
  have ev: "events empty_jet_batch = [plain_event]"
    and np: "scalar_dt empty_jet_batch ''Pileup.nPU'' = None"
    by (simp_all add: empty_jet_batch_def)
  have ob: "\<forall>c. objects plain_event c = []"
    by (simp add: plain_event_def)
  have id: "run plain_event = 1" "luminosityBlock plain_event = 1" "event plain_event = 1"
    by (simp_all add: plain_event_def)
  have ne: "primes sample_producer \<noteq> []"
    using l by auto
  have pc: "present_collections sample_producer empty_jet_batch = [''Jet'']"
    by (simp add: present_collections_def collections_def empty_jet_batch_def)
  have p: "prime_at first_primes 7 + prime_at first_primes 5 + prime_at first_primes 3 = 39"
    by (simp add: prime_at_def first_primes_def)
  have g: "spec_global_update first_primes 3 0 44822987035694596 = 44822987035694797"
    by (simp add: spec_global_update_def prime_at_def first_primes_def)
  have "pre_seed_ev sample_producer empty_jet_batch plain_event = 44822987035694797"
    unfolding zero_objects_pre_seed [OF np ob ne] pc sample_producer_simps
      unit_boot_ev [OF l [unfolded sample_producer_simps] id] p mix_39
    by (simp add: value_offset_def g)
  then have s: "event_seed sample_producer empty_jet_batch plain_event = 14923420137361084808"
    by (simp add: event_seed_def mix_counted)
  have "deterministic_event_seeds sample_producer empty_jet_batch
      = Inr (event_seeds_batch sample_producer empty_jet_batch)"
    using l float_free_samples(2) by (simp add: event_seeds_total)
  then have a: "map_sum id (\<lambda>b. map (\<lambda>e. scalars e ''deterministic_seed'') (events b))
       (deterministic_event_seeds sample_producer empty_jet_batch)
     = Inr [14923420137361084808]"
    by (simp add: events_event_seeds_batch ev s)
  have b: "bind (digest_mod (unat (prime_at first_primes 7 + prime_at first_primes 5
                              + prime_at first_primes 3)) 14)
       (\<lambda>s. digest_mod (unat s) 16)
     = Inr 13082129665886096593"
  proof -
    have d1: "digest_mod (unat (39 :: 64 word)) 14 = Inr (mix 14 39)"
      by (rule digest_mod_mix) simp
    have d2: "digest_mod (unat (mix 14 39)) 16 = Inr (mix 16 (mix 14 39))"
      by (rule digest_mod_mix) simp
    have "bind (digest_mod (unat (prime_at first_primes 7 + prime_at first_primes 5
                              + prime_at first_primes 3)) 14)
       (\<lambda>s. digest_mod (unat s) 16) = digest_mod (unat (mix 14 39)) 16"
      unfolding p d1 bind_Inr ..
    also have "\<dots> = Inr (mix 16 (mix 14 39))"
      by (rule d2)
    also have "\<dots> = Inr 13082129665886096593"
      unfolding mix_39 mix_bare ..
    finally show ?thesis .
  qed
  have c: "(14923420137361084808 :: int) \<noteq> uint (13082129665886096593 :: 64 word)"
    by simp
  have "objects plain_event = (\<lambda>c. [])"
    by (simp add: plain_event_def)
  with ev np a b c show ?thesis by blast
qed

text \<open>
  Claim C3, as the code has it. The global fields are \<^verbatim>\<open>Pileup.nPU\<close>, if the batch has
  it, and then the count of every collection of the batch, in the fixed order of the
  collections, the two generator collections only for simulated data; the loop gives them
  the consecutive positions from \<open>value_offset = 3\<close>. At the position \<open>i\<close>, a count \<open>v\<close>
  updates the seed of its event to \<open>seed + prime_at((v + i + 15) mod table_len) * (v + i)\<close>
  with every operation modulo \<open>2^64\<close>. For \<^verbatim>\<open>Pileup.nPU\<close> the sums \<open>v + i\<close> and
  \<open>v + i + 15\<close> are formed in the integer type of the column, and the index is the
  remainder of the second sum by the table length as that type holds it: it has the sign
  of this divisor, and a negative index counts from the end of the table. The update is
  the same as for a count where the table length and both sums are representable in the
  type of the column and \<open>v + i + 15\<close> is not negative.
\<close>

theorem global_pass_formula:
  assumes "primes self \<noteq> []"
    and "count_collections (collections self) (flat_fields b, b) = (gf, b1)"
  shows "gf = (if scalar_dt b ''Pileup.nPU'' = None then [] else [''Pileup.nPU''])
            @ map (\<lambda>c. ''n'' @ c) (filter (\<lambda>c. coll_dt b c \<noteq> None)
                ([''Jet'', ''FatJet'', ''SubJet'', ''Photon'', ''Muon'', ''Electron'', ''Tau'', ''SV'']
                 @ (if is_mc self then [''GenJet'', ''GenPart''] else [])))
       \<and> enumerate value_offset gf = zip [3..<3 + length gf] gf
       \<and> (c \<in> set (collections self) \<and> coll_dt b c \<noteq> None \<longrightarrow>
            global_step self b1 (i, ''n'' @ c) seed
            = Inr (map2 (\<lambda>s e. spec_global_update (primes self) i (of_nat (length (objects e c))) s)
                     seed (events b)))
       \<and> (scalar_dt b ''Pileup.nPU'' = Some dt \<longrightarrow>
            global_step self b1 (i, ''Pileup.nPU'') seed
            = Inr (map2 (\<lambda>s e. s + global_term (primes self) dt i (scalars e ''Pileup.nPU''))
                     seed (events b)))
       \<and> (scalar_dt b ''Pileup.nPU'' = Some dt
          \<and> representable dt (int (length (primes self)))
          \<and> (\<forall>e \<in> set (events b).
                representable dt (scalars e ''Pileup.nPU'' + int i)
              \<and> representable dt (scalars e ''Pileup.nPU'' + int i + 15)
              \<and> 0 \<le> scalars e ''Pileup.nPU'' + int i + 15) \<longrightarrow>
            global_step self b1 (i, ''Pileup.nPU'') seed
            = Inr (map2 (\<lambda>s e. spec_global_update (primes self) i
                                  (word_of_int (scalars e ''Pileup.nPU'')) s)
                     seed (events b)))"
proof -
  let ?cs = "present_collections self b"
  from assms(2) have gf: "gf = global_fields self b" and b1: "b1 = count_batch ?cs b"
    by (simp_all add: count_collections_snd)
  have ev: "events b1 = map (count_ev ?cs) (events b)"
    by (simp add: b1 events_count_batch)
  have "gf = (if scalar_dt b ''Pileup.nPU'' = None then [] else [''Pileup.nPU''])
            @ map (\<lambda>c. ''n'' @ c) (filter (\<lambda>c. coll_dt b c \<noteq> None)
                ([''Jet'', ''FatJet'', ''SubJet'', ''Photon'', ''Muon'', ''Electron'', ''Tau'', ''SV'']
                 @ (if is_mc self then [''GenJet'', ''GenPart''] else [])))"
    unfolding gf global_fields_def present_collections_def collections_eq
    by (simp add: flat_fields_def apply_field_def route_scalar_def split: option.splits)
  moreover have "enumerate value_offset gf = zip [3..<3 + length gf] gf"
    by (simp add: enumerate_eq_zip value_offset_def)
  moreover have "global_step self b1 (i, ''n'' @ c) seed
            = Inr (map2 (\<lambda>s e. spec_global_update (primes self) i (of_nat (length (objects e c))) s)
                     seed (events b))"
    if "c \<in> set (collections self) \<and> coll_dt b c \<noteq> None"
  proof -
    from that have c: "''n'' @ c \<in> (\<lambda>c. ''n'' @ c) ` set ?cs"
      by (simp add: present_collections_def)
    then have dt: "scalar_dt b1 (snd (i, ''n'' @ c)) = Some UInt64"
      by (simp add: b1 counted_dt_eq)
    have v: "scalars (count_ev ?cs e) (''n'' @ c)
        = uint (of_nat (length (objects e c)) :: 64 word)" for e
      using c by (simp add: scalars_count_ev)
    show ?thesis
      unfolding global_step_map2 [OF assms(1) dt] ev map2_map_right fst_conv snd_conv v
        global_term_count [OF assms(1)] ..
  qed
  moreover have code: "global_step self b1 (i, ''Pileup.nPU'') seed
            = Inr (map2 (\<lambda>s e. s + global_term (primes self) dt i (scalars e ''Pileup.nPU''))
                     seed (events b))"
    if "scalar_dt b ''Pileup.nPU'' = Some dt"
  proof -
    have dt: "scalar_dt b1 (snd (i, ''Pileup.nPU'')) = Some dt"
      using that by (auto simp: b1 counted_dt_eq)
    have v: "scalars (count_ev ?cs e) ''Pileup.nPU'' = scalars e ''Pileup.nPU''" for e
      by (auto simp: scalars_count_ev)
    show ?thesis
      unfolding global_step_map2 [OF assms(1) dt] ev map2_map_right fst_conv snd_conv v ..
  qed
  moreover have "global_step self b1 (i, ''Pileup.nPU'') seed
            = Inr (map2 (\<lambda>s e. spec_global_update (primes self) i
                                  (word_of_int (scalars e ''Pileup.nPU'')) s)
                     seed (events b))"
    if "scalar_dt b ''Pileup.nPU'' = Some dt
          \<and> representable dt (int (length (primes self)))
          \<and> (\<forall>e \<in> set (events b).
                representable dt (scalars e ''Pileup.nPU'' + int i)
              \<and> representable dt (scalars e ''Pileup.nPU'' + int i + 15)
              \<and> 0 \<le> scalars e ''Pileup.nPU'' + int i + 15)"
  proof -
    have "map2 (\<lambda>s e. s + global_term (primes self) dt i (scalars e ''Pileup.nPU'')) seed (events b)
        = map2 (\<lambda>s e. spec_global_update (primes self) i (word_of_int (scalars e ''Pileup.nPU'')) s)
            seed (events b)"
      using that by (auto simp: global_term_in_range [OF assms(1)] dest: set_zip_rightD)
    with code that show ?thesis by simp
  qed
  ultimately show ?thesis by blast
qed

theorem global_pass_formula_witness:
  "first_primes \<noteq> []
   \<and> count_collections (collections sample_producer) (flat_fields pileup_batch, pileup_batch)
       = ([''Pileup.nPU'', ''nJet''], count_batch [''Jet''] pileup_batch)
   \<and> representable Int32 (int (length first_primes))
   \<and> representable Int32 33 \<and> representable Int32 48
   \<and> global_step sample_producer (count_batch [''Jet''] pileup_batch) (3, ''Pileup.nPU'') [0]
       = Inr [spec_global_update first_primes 3 30 0]
   \<and> global_step sample_producer (count_batch [''Jet''] pileup_batch) (4, ''nJet'') [0]
       = Inr [spec_global_update first_primes 4 2 0]"
proof -
  have ne: "primes sample_producer \<noteq> []"
    using length_first_primes by auto
  have cs: "present_collections sample_producer pileup_batch = [''Jet'']"
    by (simp add: present_collections_def collections_def pileup_batch_def)
  have cc: "count_collections (collections sample_producer) (flat_fields pileup_batch, pileup_batch)
      = ([''Pileup.nPU'', ''nJet''], count_batch [''Jet''] pileup_batch)"
    unfolding count_collections_snd global_fields_def cs
    by (simp add: flat_fields_def apply_field_def route_scalar_def pileup_batch_def)
  have r: "representable Int32 33" "representable Int32 48"
    by (simp_all add: representable_def wrap_def)
  have dt: "scalar_dt pileup_batch ''Pileup.nPU'' = Some Int32"
    by (simp add: pileup_batch_def)
  have ev: "events pileup_batch = [pileup_event]"
    by (simp add: pileup_batch_def)
  have pv: "scalars pileup_event ''Pileup.nPU'' = 30" "length (objects pileup_event ''Jet'') = 2"
    by (simp_all add: pileup_event_def jet_event_def)
  have rl: "representable Int32 (int (length (primes sample_producer)))"
    by (simp add: representable_def wrap_def length_first_primes)
  have v: "\<forall>e \<in> set (events pileup_batch).
      representable Int32 (scalars e ''Pileup.nPU'' + int 3)
      \<and> representable Int32 (scalars e ''Pileup.nPU'' + int 3 + 15)
      \<and> 0 \<le> scalars e ''Pileup.nPU'' + int 3 + 15"
    using r by (simp add: ev pv)
  have j: "''Jet'' \<in> set (collections sample_producer) \<and> coll_dt pileup_batch ''Jet'' \<noteq> None"
    by (simp add: collections_def pileup_batch_def)
  from global_pass_formula [OF ne cc, where c = "''Jet''" and i = 3 and seed = "[0]" and dt = Int32]
  have "global_step sample_producer (count_batch [''Jet''] pileup_batch) (3, ''Pileup.nPU'') [0]
       = Inr (map2 (\<lambda>s e. spec_global_update (primes sample_producer) 3
                                  (word_of_int (scalars e ''Pileup.nPU'')) s)
                     [0] (events pileup_batch))"
    using dt rl v by blast
  then have a: "global_step sample_producer (count_batch [''Jet''] pileup_batch) (3, ''Pileup.nPU'') [0]
       = Inr [spec_global_update first_primes 3 30 0]"
    by (simp add: ev pv)
  from global_pass_formula [OF ne cc, where c = "''Jet''" and i = 4 and seed = "[0]" and dt = Int32]
  have "global_step sample_producer (count_batch [''Jet''] pileup_batch) (4, ''n'' @ ''Jet'') [0]
       = Inr (map2 (\<lambda>s e. spec_global_update (primes sample_producer) 4
                                  (of_nat (length (objects e ''Jet''))) s)
                     [0] (events pileup_batch))"
    using j by blast
  then have b: "global_step sample_producer (count_batch [''Jet''] pileup_batch) (4, ''nJet'') [0]
       = Inr [spec_global_update first_primes 4 2 0]"
    by (simp add: ev pv)
  from ne cc rl r a b show ?thesis by simp
qed

text \<open>The claim as stated fails for \<^verbatim>\<open>Pileup.nPU\<close>. With the value 2147483640 in a
  signed 32-bit column, \<open>v + i = 2147483643\<close> and the next sum \<open>v + i + 15\<close> wraps around
  to -2147483638, whose floor remainder by the table length 100 is 62; modulo \<open>2^64\<close> the
  sum is 2147483658 and the index is 58.\<close>

theorem global_update_counterexample:
  "(case count_collections (collections sample_producer) (flat_fields big_pileup_batch, big_pileup_batch) of
      (gf, b1) \<Rightarrow> foldM (global_step sample_producer b1) (enumerate value_offset gf) [0])
     = Inr [first_primes ! 62 * 2147483643]
   \<and> spec_global_update first_primes 3 2147483640 0 = first_primes ! 58 * 2147483643
   \<and> first_primes ! 62 * 2147483643 \<noteq> first_primes ! 58 * 2147483643"
proof -
  have "(case count_collections (collections sample_producer) (flat_fields big_pileup_batch, big_pileup_batch) of
      (gf, b1) \<Rightarrow> foldM (global_step sample_producer b1) (enumerate value_offset gf) [0])
     = Inr [first_primes ! 62 * 2147483643]"
    by code_simp
  moreover have "spec_global_update first_primes 3 2147483640 0 = first_primes ! 58 * 2147483643"
    by (simp add: spec_global_update_def prime_at_def first_primes_def)
  moreover have "first_primes ! 62 * 2147483643 \<noteq> first_primes ! 58 * 2147483643"
    by code_simp
  ultimately show ?thesis by blast
qed

text \<open>
  Claim C4, as the code has it. A designated object field that the batch has, at its
  position \<open>i\<close>, gives every event the number
  \<open>hashed = count(values) + sum(values * loc) + sum(values^2 * loc)\<close>, where the shift
  \<open>values = field + i\<close> and the squares are formed in the integer type of the field, the
  products with the 1-based local indices and the sums in signed 64 bits; the index into
  the table is the floor remainder of the signed \<open>hashed + 15\<close>, and only the product
  with the prime and the addition to the seed are modulo \<open>2^64\<close>. An event with zero
  objects has \<open>hashed = 0\<close> and keeps its seed. A field of unsigned 64-bit integers in
  a batch with events stops the producer with an index error. Where every shifted value
  and its square are representable in the type of the field and \<open>hashed + 15\<close>, modulo
  \<open>2^64\<close>, is below \<open>2^63\<close>, the update is the one with all arithmetic modulo \<open>2^64\<close>.
\<close>

theorem object_pass_formula:
  assumes "primes self \<noteq> []"
    and "field_dt (coll_dt b) cf = Some dt"
  shows "(dt \<noteq> UInt64 \<longrightarrow>
            object_step self b (i, cf) seed
            = Inr (map2 (\<lambda>s e. s + object_term (primes self) dt i (field_values e cf))
                     seed (events b)))
       \<and> hashed_ev dt i [] = 0 \<and> s + object_term (primes self) dt i [] = s
       \<and> (dt = UInt64 \<and> events b \<noteq> [] \<longrightarrow> object_step self b (i, cf) seed = Inl IndexError)
       \<and> (dt \<noteq> UInt64
          \<and> (\<forall>e \<in> set (events b).
                (\<forall>v \<in> set (field_values e cf).
                   representable dt (v + int i) \<and> representable dt ((v + int i) ^ 2))
              \<and> uint (spec_hashed i (map word_of_int (field_values e cf)) + 15) < 2 ^ 63) \<longrightarrow>
            object_step self b (i, cf) seed
            = Inr (map2 (\<lambda>s e. spec_object_update (primes self) i
                                  (map word_of_int (field_values e cf)) s)
                     seed (events b)))"
proof -
  have dt: "field_dt (coll_dt b) (snd (i, cf)) = Some dt"
    using assms(2) by simp
  have code: "object_step self b (i, cf) seed
            = Inr (map2 (\<lambda>s e. s + object_term (primes self) dt i (field_values e cf))
                     seed (events b))"
    if "dt \<noteq> UInt64"
    unfolding object_step_map2 [OF assms(1) dt that] fst_conv snd_conv ..
  have zero: "s + object_term (primes self) dt i [] = s"
    by (simp add: object_term_def hashed_ev_Nil)
  have float: "object_step self b (i, cf) seed = Inl IndexError"
    if "dt = UInt64 \<and> events b \<noteq> []"
    using that dt by (simp add: object_step_float)
  have "object_step self b (i, cf) seed
            = Inr (map2 (\<lambda>s e. spec_object_update (primes self) i
                                  (map word_of_int (field_values e cf)) s)
                     seed (events b))"
    if h: "dt \<noteq> UInt64
          \<and> (\<forall>e \<in> set (events b).
                (\<forall>v \<in> set (field_values e cf).
                   representable dt (v + int i) \<and> representable dt ((v + int i) ^ 2))
              \<and> uint (spec_hashed i (map word_of_int (field_values e cf)) + 15) < 2 ^ 63)"
  proof -
    have t: "s + object_term (primes self) dt i (field_values e cf)
        = spec_object_update (primes self) i (map word_of_int (field_values e cf)) s"
      if e: "e \<in> set (events b)" for s e
    proof -
      let ?vs = "field_values e cf"
      have w: "(word_of_int (hashed_ev dt i ?vs) :: 64 word) = spec_hashed i (map word_of_int ?vs)"
        using h e by (intro hashed_ev_word) blast
      have "uint (word_of_int (hashed_ev dt i ?vs) + 15 :: 64 word) < 2 ^ 63"
        unfolding w using h e by blast
      then have "nat (wrap Int64 (hashed_ev dt i ?vs + 15) mod int (length (primes self)))
          = unat (word_of_int (hashed_ev dt i ?vs) + 15 :: 64 word) mod length (primes self)"
        by (rule index_small)
      then show ?thesis
        unfolding object_term_def spec_object_update_def Let_def w prime_at_mod by simp
    qed
    have "map2 (\<lambda>s e. s + object_term (primes self) dt i (field_values e cf)) seed (events b)
        = map2 (\<lambda>s e. spec_object_update (primes self) i (map word_of_int (field_values e cf)) s)
            seed (events b)"
      by (auto simp: t dest: set_zip_rightD)
    with code h show ?thesis by simp
  qed
  with code zero float show ?thesis
    by (simp add: hashed_ev_Nil)
qed

theorem object_pass_formula_witness:
  "first_primes \<noteq> []
   \<and> field_dt (coll_dt electron_batch) (''Electron'', ''seediPhiOriY'') = Some Int32
   \<and> representable Int32 9 \<and> representable Int32 81
   \<and> uint (spec_hashed 4 [5] + 15) < 2 ^ 63
   \<and> object_step sample_producer electron_batch (4, ''Electron'', ''seediPhiOriY'') [0]
       = Inr [spec_object_update first_primes 4 [5] 0]
   \<and> spec_object_update first_primes 4 [5] 0 = first_primes ! 6 * 91"
proof -
  have ne: "primes sample_producer \<noteq> []"
    using length_first_primes by auto
  have dt: "field_dt (coll_dt electron_batch) (''Electron'', ''seediPhiOriY'') = Some Int32"
    by (simp add: field_dt_def electron_batch_def)
  have r: "representable Int32 9" "representable Int32 81"
    by (simp_all add: representable_def wrap_def)
  have ev: "events electron_batch = [electron_event]"
    by (simp add: electron_batch_def)
  have fv: "field_values electron_event (''Electron'', ''seediPhiOriY'') = [5]"
    by (simp add: field_values_def electron_event_def)
  have sh: "spec_hashed 4 [5] = 91"
    by (simp add: spec_hashed_def)
  have u: "uint (spec_hashed 4 [5] + 15) < 2 ^ 63"
    unfolding sh by simp
  have v: "Int32 \<noteq> UInt64
      \<and> (\<forall>e \<in> set (events electron_batch).
            (\<forall>v \<in> set (field_values e (''Electron'', ''seediPhiOriY'')).
               representable Int32 (v + int 4) \<and> representable Int32 ((v + int 4) ^ 2))
          \<and> uint (spec_hashed 4 (map word_of_int (field_values e (''Electron'', ''seediPhiOriY''))) + 15)
              < 2 ^ 63)"
    using r u by (simp add: ev fv)
  from object_pass_formula [OF ne dt, where i = 4 and seed = "[0]"]
  have "object_step sample_producer electron_batch (4, ''Electron'', ''seediPhiOriY'') [0]
       = Inr (map2 (\<lambda>s e. spec_object_update (primes sample_producer) 4
                 (map word_of_int (field_values e (''Electron'', ''seediPhiOriY''))) s)
               [0] (events electron_batch))"
    using v by blast
  then have a: "object_step sample_producer electron_batch (4, ''Electron'', ''seediPhiOriY'') [0]
       = Inr [spec_object_update first_primes 4 [5] 0]"
    by (simp add: ev fv)
  have b: "spec_object_update first_primes 4 [5] 0 = first_primes ! 6 * 91"
    unfolding spec_object_update_def Let_def sh
    by (simp add: prime_at_def first_primes_def)
  from ne dt r u a b show ?thesis by simp
qed

text \<open>The claim as stated fails where a square leaves the type of the field. Two jets
  with 20 and 7 constituents, stored as unsigned 8-bit integers, are 29 and 16 at the
  position 9; their squares 841 and 256 are stored as 73 and 0, so that
  \<open>hashed = 2 + (29 + 32) + (73 + 0) = 136\<close> and the prime has the index 51. With all
  arithmetic modulo \<open>2^64\<close> the number is \<open>2 + 61 + (841 + 512) = 1416\<close> and the index 31.\<close>

theorem object_update_counterexample:
  "(case count_collections (collections sample_producer) (flat_fields jet_batch, jet_batch) of
      (gf, b1) \<Rightarrow> foldM (object_step sample_producer b1) (enumerate value_offset object_fields) [0])
     = Inr [first_primes ! 51 * 136]
   \<and> field_values jet_event (''Jet'', ''nConstituents'') = [20, 7]
   \<and> spec_object_update first_primes 9 [20, 7] 0 = first_primes ! 31 * 1416
   \<and> first_primes ! 51 * 136 \<noteq> first_primes ! 31 * 1416"
proof -
  have "(case count_collections (collections sample_producer) (flat_fields jet_batch, jet_batch) of
      (gf, b1) \<Rightarrow> foldM (object_step sample_producer b1) (enumerate value_offset object_fields) [0])
     = Inr [first_primes ! 51 * 136]"
    by code_simp
  moreover have "field_values jet_event (''Jet'', ''nConstituents'') = [20, 7]"
    by (simp add: field_values_def jet_event_def)
  moreover have "spec_hashed 9 [20, 7] = 1416"
    by (simp add: spec_hashed_def)
  then have "spec_object_update first_primes 9 [20, 7] 0 = first_primes ! 31 * 1416"
    unfolding spec_object_update_def Let_def
    by (simp add: prime_at_def first_primes_def)
  moreover have "first_primes ! 51 * 136 \<noteq> first_primes ! 31 * 1416"
    by code_simp
  ultimately show ?thesis by blast
qed

text \<open>
  Claim C5. In the batch returned by the jet seed producer, the seed of the jet at the
  0-based local index \<open>j\<close> of an event with the final event seed \<open>E\<close> is the digest, with
  16 hex characters and reduced to 64 bits, of \<open>E + prime_at(E mod table_len) * (j +
  prime_at(50))\<close>, where sum and product wrap around at 64 bits. \<open>E\<close> is the seed that
  the event seed producer gives the event.
\<close>

theorem jet_seed_formula:
  assumes "deterministic_jet_seeds self b = Inr b'"
    and "k < length (events b')"
    and "j < length (objects (events b' ! k) ''Jet'')"
  shows "\<exists>E d b1.
           deterministic_event_seeds self b = Inr b1
         \<and> scalars (events b1 ! k) ''deterministic_seed'' = uint E
         \<and> scalars (events b' ! k) ''deterministic_seed'' = uint E
         \<and> digest_mod (unat (spec_jet_raw (primes self) E j)) 16 = Inr d
         \<and> (objects (events b' ! k) ''Jet'' ! j) ''deterministic_seed'' = uint d"
proof -
  from assms(1) have len: "50 < length (primes self)" and ff: "float_free b \<or> events b = []"
    and b': "b' = jet_seeds_batch self b"
    by (simp_all add: jet_seeds_Inr_iff)
  let ?e = "events b ! k"
  let ?E = "event_seed self b ?e"
  let ?d = "mix 16 (jet_raw (primes self) ?E j)"
  from assms(2) have k: "k < length (events b)"
    by (simp add: b' events_jet_seeds_batch)
  then have ek: "events b' ! k = jet_out self b ?e"
    by (simp add: b' events_jet_seeds_batch)
  from assms(3) have j: "j < length (objects ?e ''Jet'')"
    by (simp add: ek jets_jet_out)
  have "7 < length (primes self)" using len by linarith
  then have ev: "deterministic_event_seeds self b = Inr (event_seeds_batch self b)"
    using ff by (rule event_seeds_total)
  moreover have "scalars (events (event_seeds_batch self b) ! k) ''deterministic_seed'' = uint ?E"
    using k by (simp add: events_event_seeds_batch)
  moreover have "scalars (events b' ! k) ''deterministic_seed'' = uint ?E"
    by (simp add: ek)
  moreover have "digest_mod (unat (spec_jet_raw (primes self) ?E j)) 16 = Inr ?d"
    by (simp add: spec_jet_raw_eq [OF len] digest_mod_mix)
  moreover have "(objects (events b' ! k) ''Jet'' ! j) ''deterministic_seed'' = uint ?d"
    using j by (simp add: ek jets_jet_out)
  ultimately show ?thesis by blast
qed

theorem jet_seed_formula_witness:
  "deterministic_jet_seeds sample_producer jet_batch = Inr (jet_seeds_batch sample_producer jet_batch)
   \<and> (1::nat) < length (objects (events (jet_seeds_batch sample_producer jet_batch) ! 0) ''Jet'')
   \<and> (\<exists>E d b1.
         deterministic_event_seeds sample_producer jet_batch = Inr b1
       \<and> scalars (events b1 ! 0) ''deterministic_seed'' = uint E
       \<and> scalars (events (jet_seeds_batch sample_producer jet_batch) ! 0) ''deterministic_seed'' = uint E
       \<and> digest_mod (unat (spec_jet_raw first_primes E 1)) 16 = Inr d
       \<and> (objects (events (jet_seeds_batch sample_producer jet_batch) ! 0) ''Jet'' ! 1)
            ''deterministic_seed'' = uint d)"
proof -
  have h: "deterministic_jet_seeds sample_producer jet_batch
      = Inr (jet_seeds_batch sample_producer jet_batch)"
    by (rule jet_seeds_total)
       (simp_all add: length_first_primes float_free_samples, simp add: jet_batch_def)
  have k: "0 < length (events (jet_seeds_batch sample_producer jet_batch))"
    by (simp add: events_jet_seeds_batch jet_batch_def)
  have j: "1 < length (objects (events (jet_seeds_batch sample_producer jet_batch) ! 0) ''Jet'')"
    by (simp add: events_jet_seeds_batch jets_jet_out jet_batch_def jet_event_def)
  from jet_seed_formula [OF h k j] h j show ?thesis by simp
qed

text \<open>
  Claim C6. The seeds of an event and of its jets depend on the event alone, given the
  type of the batch and the prime table: whichever of the three producers is run, on a
  batch whose events are permuted it returns the permuted output, event by event with the
  same record and the same seeds, and on a chunk of the batch it returns the chunk of the
  output.
\<close>

theorem seeds_independent_of_batch:
  assumes "build = deterministic_event_seeds self \<or> build = deterministic_jet_seeds self
           \<or> build = deterministic_seeds self"
    and "build b = Inr b'"
  shows "(mset p = mset [0..<length (events b)] \<longrightarrow> build (permute p b) = Inr (permute p b'))
       \<and> build (chunk lo hi b) = Inr (chunk lo hi b')"
proof -
  have empty: "map (\<lambda>i. events b ! i) p = []"
    if "mset p = mset [0..<length (events b)]" "events b = []"
    using that by simp
  have in_range: "set p \<subseteq> {..<length (events b)}" if "mset p = mset [0..<length (events b)]"
    using that by (rule perm_indices)
  have chunk_empty: "events b = [] \<Longrightarrow> take (hi - lo) (drop lo (events b)) = []"
    by simp
  consider (ev) "build = deterministic_event_seeds self"
    | (jet) "build = deterministic_jet_seeds self \<or> build = deterministic_seeds self"
    using assms(1) by blast
  then show ?thesis
  proof cases
    case ev
    with assms(2) have b': "events b' = map (event_out self b) (events b)"
      by (simp add: event_seeds_Inr_iff events_event_seeds_batch)
    have "build (permute p b) = Inr (permute p b')" if "mset p = mset [0..<length (events b)]"
      using event_seeds_rearranged [of self b b' "map (\<lambda>i. events b ! i) p"] assms(2)
        empty [OF that] map_nth_map [OF in_range [OF that], of "event_out self b"]
      by (simp add: ev permute_def b')
    moreover have "build (chunk lo hi b) = Inr (chunk lo hi b')"
      using event_seeds_rearranged [of self b b' "take (hi - lo) (drop lo (events b))"] assms(2)
        chunk_empty
      by (simp add: ev chunk_def b' take_map drop_map)
    ultimately show ?thesis by blast
  next
    case jet
    then have bj: "build = deterministic_jet_seeds self"
      by (auto simp: deterministic_seeds_eq fun_eq_iff)
    with assms(2) have b': "events b' = map (jet_out self b) (events b)"
      by (simp add: jet_seeds_Inr_iff events_jet_seeds_batch)
    have "build (permute p b) = Inr (permute p b')" if "mset p = mset [0..<length (events b)]"
      using jet_seeds_rearranged [of self b b' "map (\<lambda>i. events b ! i) p"] assms(2)
        empty [OF that] map_nth_map [OF in_range [OF that], of "jet_out self b"]
      by (simp add: bj permute_def b')
    moreover have "build (chunk lo hi b) = Inr (chunk lo hi b')"
      using jet_seeds_rearranged [of self b b' "take (hi - lo) (drop lo (events b))"] assms(2)
        chunk_empty
      by (simp add: bj chunk_def b' take_map drop_map)
    ultimately show ?thesis by blast
  qed
qed

theorem seeds_independent_of_batch_witness:
  "deterministic_jet_seeds sample_producer two_event_batch
     = Inr (jet_seeds_batch sample_producer two_event_batch)
   \<and> mset [1, 0] = mset [0..<length (events two_event_batch)]
   \<and> deterministic_jet_seeds sample_producer (permute [1, 0] two_event_batch)
     = Inr (permute [1, 0] (jet_seeds_batch sample_producer two_event_batch))
   \<and> deterministic_jet_seeds sample_producer (chunk 1 2 two_event_batch)
     = Inr (chunk 1 2 (jet_seeds_batch sample_producer two_event_batch))"
proof -
  have h: "deterministic_jet_seeds sample_producer two_event_batch
      = Inr (jet_seeds_batch sample_producer two_event_batch)"
    by (rule jet_seeds_total)
       (simp_all add: length_first_primes float_free_two_event_batch, simp add: two_event_batch_def)
  have p: "mset [1, 0] = mset [0..<length (events two_event_batch)]"
    by (simp add: two_event_batch_def upt_rec_numeral)
  from seeds_independent_of_batch [of "deterministic_jet_seeds sample_producer" sample_producer,
      OF _ h, of "[1, 0]" 1 2] h p
  show ?thesis by simp
qed

text \<open>
  Claim C7, as the code has it. A feature that is not in the batch is skipped, with no
  value in its place. Among the global fields it takes no position: the loop enumerates,
  from \<open>value_offset\<close>, the list of the fields that are there. Among the object fields
  it keeps its position: the loop enumerates the fixed list of all nine fields and then
  passes over the absent ones, so that a field that is there is hashed with
  \<open>value_offset\<close> plus its index in the fixed list, whichever other fields are absent.
\<close>

theorem absent_features_positions:
  "event_seed_input self b =
     bind (bootstrap self b) (\<lambda>seed.
     bind (foldM (global_step self (count_batch (present_collections self b) b))
             (enumerate value_offset
                ((if scalar_dt b ''Pileup.nPU'' = None then [] else [''Pileup.nPU''])
                 @ map (\<lambda>c. ''n'' @ c) (filter (\<lambda>c. coll_dt b c \<noteq> None) (collections self))))
             seed) (\<lambda>seed.
     bind (foldM (object_step self (count_batch (present_collections self b) b))
             (filter (\<lambda>itf. field_dt (coll_dt b) (snd itf) \<noteq> None)
                (enumerate value_offset object_fields))
             seed) (\<lambda>seed.
       Inr (count_batch (present_collections self b) b, seed))))"
proof -
  have gf: "global_fields self b =
      (if scalar_dt b ''Pileup.nPU'' = None then [] else [''Pileup.nPU''])
      @ map (\<lambda>c. ''n'' @ c) (filter (\<lambda>c. coll_dt b c \<noteq> None) (collections self))"
    by (simp add: global_fields_def flat_fields_def apply_field_def route_scalar_def
        present_collections_def split: option.splits)
  have obj: "foldM (object_step self (count_batch (present_collections self b) b))
        (enumerate value_offset object_fields) seed
      = foldM (object_step self (count_batch (present_collections self b) b))
        (filter (\<lambda>itf. field_dt (coll_dt b) (snd itf) \<noteq> None)
           (enumerate value_offset object_fields)) seed" for seed
    using object_pass_filter [of self "count_batch (present_collections self b) b"] by simp
  show ?thesis
    unfolding event_seed_input_def count_collections_snd prod.case obj gf ..
qed

theorem absent_features_positions_witness:
  "event_seed_input sample_producer electron_batch =
     bind (bootstrap sample_producer electron_batch) (\<lambda>seed.
     bind (foldM (global_step sample_producer (count_batch [''Electron''] electron_batch))
             [(3, ''nElectron'')] seed) (\<lambda>seed.
     bind (foldM (object_step sample_producer (count_batch [''Electron''] electron_batch))
             [(4, ''Electron'', ''seediPhiOriY'')] seed) (\<lambda>seed.
       Inr (count_batch [''Electron''] electron_batch, seed))))"
proof -
  have cs: "present_collections sample_producer electron_batch = [''Electron'']"
    by (simp add: present_collections_def collections_def electron_batch_def)
  have gl: "(if scalar_dt electron_batch ''Pileup.nPU'' = None then [] else [''Pileup.nPU''])
      @ map (\<lambda>c. ''n'' @ c) (filter (\<lambda>c. coll_dt electron_batch c \<noteq> None)
          (collections sample_producer)) = [''nElectron'']"
    by (simp add: collections_def electron_batch_def)
  have ob: "filter (\<lambda>itf. field_dt (coll_dt electron_batch) (snd itf) \<noteq> None)
      (enumerate value_offset object_fields) = [(4, ''Electron'', ''seediPhiOriY'')]"
    by code_simp
  have en: "enumerate value_offset [''nElectron''] = [(3, ''nElectron'')]"
    by (simp add: value_offset_def)
  from absent_features_positions [of sample_producer electron_batch]
  show ?thesis unfolding cs gl ob en .
qed

text \<open>The claim as stated fails for the object fields. In the batch whose electrons have
  \<^verbatim>\<open>seediPhiOriY\<close> and lack \<^verbatim>\<open>jetIdx\<close>, the loop of the producer hashes the field at
  the position 4, which adds \<open>prime[6] * 91\<close> for an electron with the value 5; with the
  positions assigned by presence it would be hashed at the position 3, which adds
  \<open>prime[88] * 73\<close>.\<close>

theorem object_positions_counterexample:
  "foldM (object_step sample_producer electron_batch)
     (enumerate value_offset object_fields) [0] = Inr [first_primes ! 6 * 91]
   \<and> foldM (object_step sample_producer electron_batch)
     (enumerate value_offset (present_object_fields electron_batch)) [0]
       = Inr [first_primes ! 88 * 73]
   \<and> first_primes ! 6 * 91 \<noteq> first_primes ! 88 * 73"
  by code_simp

text \<open>
  Claim C8, as the code has it. For a batch without the collection \<^verbatim>\<open>Jet\<close> the jet seed
  producer returns no batch: where the event seed producer fails it fails in the same way,
  and where the event seeds are computed the access \<^verbatim>\<open>events.Jet\<close> raises
  \<^verbatim>\<open>AttributeError\<close>. The producer returns a batch only when \<^verbatim>\<open>Jet\<close> is there.
\<close>

theorem jet_seeds_without_jets:
  assumes "coll_dt b ''Jet'' = None"
  shows "deterministic_jet_seeds self b =
           (case deterministic_event_seeds self b of
              Inl err \<Rightarrow> Inl err
            | Inr b1 \<Rightarrow> Inl AttributeError)"
proof (cases "deterministic_event_seeds self b")
  case (Inl err)
  then show ?thesis by (simp add: deterministic_jet_seeds_def)
next
  case (Inr b1)
  from jet_seeds_no_jet [OF Inr assms] Inr show ?thesis by simp
qed

theorem jet_seeds_without_jets_witness:
  "coll_dt muon_batch ''Jet'' = None
   \<and> deterministic_event_seeds sample_producer muon_batch
       = Inr (event_seeds_batch sample_producer muon_batch)
   \<and> deterministic_jet_seeds sample_producer muon_batch = Inl AttributeError"
proof -
  have a: "coll_dt muon_batch ''Jet'' = None" by (simp add: muon_batch_def)
  have h: "deterministic_event_seeds sample_producer muon_batch
      = Inr (event_seeds_batch sample_producer muon_batch)"
    by (rule event_seeds_total) (simp_all add: length_first_primes float_free_muon_batch)
  from jet_seeds_without_jets [OF a, of sample_producer] a h show ?thesis by simp
qed

text \<open>The claim as stated fails on the bare batch: there is no collection \<^verbatim>\<open>Jet\<close>, and
  the jet seed producer raises instead of returning the batch.\<close>

theorem jet_seeds_no_op_counterexample:
  "coll_dt bare_batch ''Jet'' = None
   \<and> deterministic_jet_seeds sample_producer bare_batch = Inl AttributeError"
proof -
  have a: "coll_dt bare_batch ''Jet'' = None" by (simp add: bare_batch_def)
  have "deterministic_event_seeds sample_producer bare_batch
      = Inr (event_seeds_batch sample_producer bare_batch)"
    by (rule event_seeds_total) (simp_all add: length_first_primes float_free_samples)
  from jet_seeds_no_jet [OF this a] a show ?thesis by simp
qed

text \<open>
  Claim C9, as the code has it. Where the event seed producer returns, the batch it
  returns is the input batch with the unsigned 64-bit per-event field
  \<^verbatim>\<open>deterministic_seed\<close> and, for every counted collection that is in the batch, the
  unsigned 64-bit per-event count field \<^verbatim>\<open>n<collection>\<close>; the collections, the
  required fields and every other per-event field are as they were. Where the jet seed
  producer returns, its batch is that batch with the unsigned 64-bit field
  \<^verbatim>\<open>deterministic_seed\<close> attached to every jet and nothing else changed.
\<close>

theorem seed_fields_frame:
  "(deterministic_event_seeds self b = Inr b1 \<longrightarrow>
       coll_dt b1 = coll_dt b
     \<and> (\<forall>f. scalar_dt b1 f = (if f \<in> added_fields self b then Some UInt64 else scalar_dt b f))
     \<and> list_all2 (scalars_added (added_fields self b)) (events b) (events b1))
 \<and> (deterministic_jet_seeds self b = Inr b2 \<longrightarrow>
       (\<exists>b1 fs. deterministic_event_seeds self b = Inr b1
        \<and> scalar_dt b2 = scalar_dt b1
        \<and> coll_dt b ''Jet'' = Some fs
        \<and> coll_dt b2 = (coll_dt b)(''Jet'' \<mapsto> fs(''deterministic_seed'' \<mapsto> UInt64))
        \<and> list_all2 (jet_field_added ''deterministic_seed'') (events b1) (events b2)))"
proof (intro conjI impI)
  assume "deterministic_event_seeds self b = Inr b1"
  then have b1: "b1 = event_seeds_batch self b"
    by (simp add: event_seeds_Inr_iff)
  show "coll_dt b1 = coll_dt b"
    by (simp add: b1)
  show "\<forall>f. scalar_dt b1 f = (if f \<in> added_fields self b then Some UInt64 else scalar_dt b f)"
    by (simp add: b1 scalar_dt_event_seeds_batch added_fields_def)
  have "list_all2 (scalars_added (added_fields self b)) (map (\<lambda>e. e) (events b))
          (map (event_out self b) (events b))"
    by (rule list_all2_maps) (rule scalars_added_event_out)
  then show "list_all2 (scalars_added (added_fields self b)) (events b) (events b1)"
    by (simp add: b1 events_event_seeds_batch)
next
  assume "deterministic_jet_seeds self b = Inr b2"
  then have ok: "50 < length (primes self)" "float_free b \<or> events b = []"
    and jet: "coll_dt b ''Jet'' \<noteq> None" and b2: "b2 = jet_seeds_batch self b"
    by (simp_all add: jet_seeds_Inr_iff)
  from jet obtain fs where fs: "coll_dt b ''Jet'' = Some fs" by auto
  have "7 < length (primes self)" using ok(1) by linarith
  then have ev: "deterministic_event_seeds self b = Inr (event_seeds_batch self b)"
    using ok(2) by (rule event_seeds_total)
  moreover have "scalar_dt b2 = scalar_dt (event_seeds_batch self b)"
    by (simp add: b2 jet_seeds_batch_def)
  moreover have "coll_dt b2 = (coll_dt b)(''Jet'' \<mapsto> fs(''deterministic_seed'' \<mapsto> UInt64))"
    by (simp add: b2 jet_seeds_batch_def fs)
  moreover have "list_all2 (jet_field_added ''deterministic_seed'')
      (events (event_seeds_batch self b)) (events b2)"
    unfolding b2 events_jet_seeds_batch events_event_seeds_batch
    by (rule list_all2_maps) (rule jet_field_added_jet_out)
  ultimately show "\<exists>b1 fs. deterministic_event_seeds self b = Inr b1
        \<and> scalar_dt b2 = scalar_dt b1
        \<and> coll_dt b ''Jet'' = Some fs
        \<and> coll_dt b2 = (coll_dt b)(''Jet'' \<mapsto> fs(''deterministic_seed'' \<mapsto> UInt64))
        \<and> list_all2 (jet_field_added ''deterministic_seed'') (events b1) (events b2)"
    using fs by blast
qed

theorem seed_fields_frame_witness:
  "deterministic_event_seeds sample_producer jet_batch
     = Inr (event_seeds_batch sample_producer jet_batch)
   \<and> deterministic_jet_seeds sample_producer jet_batch
     = Inr (jet_seeds_batch sample_producer jet_batch)
   \<and> added_fields sample_producer jet_batch = {''deterministic_seed'', ''nJet''}
   \<and> coll_dt (event_seeds_batch sample_producer jet_batch) = coll_dt jet_batch
   \<and> list_all2 (scalars_added {''deterministic_seed'', ''nJet''}) (events jet_batch)
        (events (event_seeds_batch sample_producer jet_batch))
   \<and> list_all2 (jet_field_added ''deterministic_seed'')
        (events (event_seeds_batch sample_producer jet_batch))
        (events (jet_seeds_batch sample_producer jet_batch))"
proof -
  have h1: "deterministic_event_seeds sample_producer jet_batch
      = Inr (event_seeds_batch sample_producer jet_batch)"
    by (rule event_seeds_total) (simp_all add: length_first_primes float_free_samples)
  have h2: "deterministic_jet_seeds sample_producer jet_batch
      = Inr (jet_seeds_batch sample_producer jet_batch)"
    by (rule jet_seeds_total)
       (simp_all add: length_first_primes float_free_samples, simp add: jet_batch_def)
  have a: "added_fields sample_producer jet_batch = {''deterministic_seed'', ''nJet''}"
    by (simp add: added_fields_def present_collections_def collections_def jet_batch_def)
  from seed_fields_frame [of sample_producer jet_batch
      "event_seeds_batch sample_producer jet_batch" "jet_seeds_batch sample_producer jet_batch"]
    h1 h2 a
  show ?thesis by auto
qed

text \<open>The claim as stated fails where a collection is counted: the batch returned for the
  batch of one event with two jets has the per-event field \<^verbatim>\<open>nJet\<close>, which the input
  lacks and which is not \<^verbatim>\<open>deterministic_seed\<close>.\<close>

theorem only_seed_field_counterexample:
  "deterministic_event_seeds sample_producer jet_batch
     = Inr (event_seeds_batch sample_producer jet_batch)
   \<and> scalar_dt jet_batch ''nJet'' = None
   \<and> scalar_dt (event_seeds_batch sample_producer jet_batch) ''nJet'' = Some UInt64
   \<and> scalars (events (event_seeds_batch sample_producer jet_batch) ! 0) ''nJet'' = 2"
proof -
  have "deterministic_event_seeds sample_producer jet_batch
      = Inr (event_seeds_batch sample_producer jet_batch)"
    by (rule event_seeds_total) (simp_all add: length_first_primes float_free_samples)
  moreover have "scalar_dt jet_batch ''nJet'' = None"
    by (simp add: jet_batch_def)
  moreover have "scalar_dt (event_seeds_batch sample_producer jet_batch) ''nJet'' = Some UInt64"
    by (simp add: scalar_dt_event_seeds_batch present_collections_def collections_def jet_batch_def)
  moreover have "scalars (events (event_seeds_batch sample_producer jet_batch) ! 0) ''nJet'' = 2"
    by (simp add: events_event_seeds_batch scalars_event_out present_collections_def
        collections_def jet_batch_def jet_event_def)
  ultimately show ?thesis by simp
qed

text \<open>
  Claim C10. The event seed producer is idempotent on its own output: applied to a batch it
  has returned, it returns that batch again, with the same seeds and the same counts. The
  wrapper runs it once directly and once more inside the jet seed producer, which
  therefore works on the recomputed event seeds and returns what it returns on the
  original batch.
\<close>

theorem event_seeds_idempotent:
  assumes "deterministic_event_seeds self b = Inr b'"
  shows "deterministic_event_seeds self b' = Inr b'
       \<and> deterministic_seeds self b = deterministic_jet_seeds self b'
       \<and> deterministic_jet_seeds self b' = deterministic_jet_seeds self b"
proof -
  from assms have ok: "7 < length (primes self)" "float_free b \<or> events b = []"
    and b': "b' = event_seeds_batch self b"
    by (simp_all add: event_seeds_Inr_iff)
  have "float_free b' \<or> events b' = []"
    using ok(2) float_free_cong [of b' b] by (auto simp: b' events_event_seeds_batch)
  with ok(1) have "deterministic_event_seeds self b' = Inr (event_seeds_batch self b')"
    by (rule event_seeds_total)
  then have again: "deterministic_event_seeds self b' = Inr b'"
    by (simp add: b' event_seeds_batch_idem)
  have "deterministic_seeds self b = deterministic_jet_seeds self b'"
    by (simp add: deterministic_seeds_def assms)
  moreover have "deterministic_jet_seeds self b' = deterministic_jet_seeds self b"
    by (simp add: deterministic_jet_seeds_def assms again)
  ultimately show ?thesis using again by simp
qed

theorem event_seeds_idempotent_witness:
  "deterministic_event_seeds sample_producer jet_batch
     = Inr (event_seeds_batch sample_producer jet_batch)
   \<and> deterministic_event_seeds sample_producer (event_seeds_batch sample_producer jet_batch)
     = Inr (event_seeds_batch sample_producer jet_batch)
   \<and> deterministic_seeds sample_producer jet_batch
     = deterministic_jet_seeds sample_producer jet_batch"
proof -
  have h: "deterministic_event_seeds sample_producer jet_batch
      = Inr (event_seeds_batch sample_producer jet_batch)"
    by (rule event_seeds_total) (simp_all add: length_first_primes float_free_samples)
  from event_seeds_idempotent [OF h] h show ?thesis by simp
qed

end
